theory Spec2Isabelle
  imports Main "HOL-Library.Word" "HOL-Library.Multiset" "HOL-Library.Sublist"
    "HOL-Library.Char_ord" "HOL-Library.List_Lexorder"
begin

section \<open>Strings: extracting a queue name from its URL\<close>

text \<open>
  Go strings are byte sequences; they are modelled as \<open>string\<close> (a list of \<open>char\<close>, one per
  byte). Both copies of \<open>extractQueueNameFromURL\<close> call \<open>strings.Split(url, "/")\<close> with
  the one-byte separator \<open>"/"\<close>. \<open>Split_from\<close> is that call for a one-byte separator: it
  scans the input, collecting the bytes of the current piece in \<open>cur\<close>; a separator closes
  the piece, and the end of the input closes the last one (so the empty string gives the
  single piece \<open>""\<close>, as Go does).
\<close>

fun Split_from :: "char \<Rightarrow> string \<Rightarrow> string \<Rightarrow> string list" where
  "Split_from sep cur [] = [cur]"
| "Split_from sep cur (c # cs) =
     (if c = sep then cur # Split_from sep [] cs else Split_from sep (cur @ [c]) cs)"

definition Split :: "string \<Rightarrow> char \<Rightarrow> string list" where
  "Split s sep = Split_from sep [] s"

text \<open>
  \<open>extractQueueNameFromURL\<close> of internal/ui/loaders.go. The branches are those of the
  source: the last part when there is at least one part, the input otherwise.
\<close>

definition extractQueueNameFromURL_ui :: "string \<Rightarrow> string" where
  "extractQueueNameFromURL_ui url =
     (let parts = Split url (CHR ''/'')
      in if length parts > 0 then parts ! (length parts - 1) else url)"

text \<open>The copy of the same function in package aws (the SQS client).\<close>

definition extractQueueNameFromURL_aws :: "string \<Rightarrow> string" where
  "extractQueueNameFromURL_aws url =
     (let parts = Split url (CHR ''/'')
      in if length parts > 0 then parts ! (length parts - 1) else url)"

text \<open>
  The description to compare with: the substring after the last \<open>/\<close>, the whole string when
  no \<open>/\<close> occurs.
\<close>

definition afterLastSlash :: "string \<Rightarrow> string" where
  "afterLastSlash s = rev (takeWhile (\<lambda>c. c \<noteq> CHR ''/'') (rev s))"

section \<open>The region selector\<close>

text \<open>Go's \<open>int\<close> is 64 bits wide on the platforms the program is built for; arithmetic wraps
  around and comparisons are signed.\<close>

type_synonym gint = "64 word"

definition gmax :: "gint \<Rightarrow> gint \<Rightarrow> gint" where
  "gmax a b = (if a <s b then b else a)"

definition gmin :: "gint \<Rightarrow> gint \<Rightarrow> gint" where
  "gmin a b = (if b <s a then b else a)"

record Region =
  Code :: string
  RegionName :: string

record RegionGroup =
  GroupName :: string
  Regions :: "Region list"

definition AWSRegions :: "RegionGroup list" where
  "AWSRegions =
    [\<lparr>GroupName = ''US'', Regions =
        [\<lparr>Code = ''us-east-1'', RegionName = ''N. Virginia''\<rparr>,
         \<lparr>Code = ''us-east-2'', RegionName = ''Ohio''\<rparr>,
         \<lparr>Code = ''us-west-1'', RegionName = ''N. California''\<rparr>,
         \<lparr>Code = ''us-west-2'', RegionName = ''Oregon''\<rparr>]\<rparr>,
     \<lparr>GroupName = ''Europe'', Regions =
        [\<lparr>Code = ''eu-west-1'', RegionName = ''Ireland''\<rparr>,
         \<lparr>Code = ''eu-west-2'', RegionName = ''London''\<rparr>,
         \<lparr>Code = ''eu-west-3'', RegionName = ''Paris''\<rparr>,
         \<lparr>Code = ''eu-central-1'', RegionName = ''Frankfurt''\<rparr>,
         \<lparr>Code = ''eu-north-1'', RegionName = ''Stockholm''\<rparr>]\<rparr>,
     \<lparr>GroupName = ''Asia Pacific'', Regions =
        [\<lparr>Code = ''ap-southeast-1'', RegionName = ''Singapore''\<rparr>,
         \<lparr>Code = ''ap-southeast-2'', RegionName = ''Sydney''\<rparr>,
         \<lparr>Code = ''ap-northeast-1'', RegionName = ''Tokyo''\<rparr>,
         \<lparr>Code = ''ap-northeast-2'', RegionName = ''Seoul''\<rparr>,
         \<lparr>Code = ''ap-south-1'', RegionName = ''Mumbai''\<rparr>]\<rparr>,
     \<lparr>GroupName = ''Other'', Regions =
        [\<lparr>Code = ''sa-east-1'', RegionName = ''Sao Paulo''\<rparr>,
         \<lparr>Code = ''ca-central-1'', RegionName = ''Canada''\<rparr>,
         \<lparr>Code = ''me-south-1'', RegionName = ''Bahrain''\<rparr>,
         \<lparr>Code = ''af-south-1'', RegionName = ''Cape Town''\<rparr>]\<rparr>]"

record RegionSelector =
  width :: gint
  height :: gint
  cursor :: gint
  offset :: gint
  currentRegion :: string
  flatRegions :: "Region list"

definition flattenRegions :: "Region list" where
  "flattenRegions = concat (map Regions AWSRegions)"

text \<open>\<open>NewRegionSelector\<close>: every field but \<open>flatRegions\<close> has Go's zero value.\<close>

definition NewRegionSelector :: RegionSelector where
  "NewRegionSelector =
     \<lparr>width = 0, height = 0, cursor = 0, offset = 0, currentRegion = [],
      flatRegions = flattenRegions\<rparr>"

definition SetSize :: "gint \<Rightarrow> gint \<Rightarrow> RegionSelector \<Rightarrow> RegionSelector" where
  "SetSize w h r = r\<lparr>width := w, height := h\<rparr>"

definition len_flatRegions :: "RegionSelector \<Rightarrow> gint" where
  "len_flatRegions r = of_nat (length (flatRegions r))"

definition visibleCount :: "RegionSelector \<Rightarrow> gint" where
  "visibleCount r = gmax 1 (height r - 6)"

definition clampOffset :: "RegionSelector \<Rightarrow> RegionSelector" where
  "clampOffset r =
     (let visible = visibleCount r;
          r1 = (if cursor r <s offset r then r\<lparr>offset := cursor r\<rparr>
                else if offset r + visible \<le>s cursor r
                     then r\<lparr>offset := cursor r - visible + 1\<rparr>
                else r);
          maxOffset = gmax 0 (len_flatRegions r1 - visible);
          r2 = r1\<lparr>offset := gmin (offset r1) maxOffset\<rparr>
      in r2\<lparr>offset := gmax 0 (offset r2)\<rparr>)"

definition Up :: "RegionSelector \<Rightarrow> RegionSelector" where
  "Up r = (if 0 <s cursor r then clampOffset (r\<lparr>cursor := cursor r - 1\<rparr>) else r)"

definition Down :: "RegionSelector \<Rightarrow> RegionSelector" where
  "Down r =
     (if cursor r <s len_flatRegions r - 1 then clampOffset (r\<lparr>cursor := cursor r + 1\<rparr>)
      else r)"

text \<open>The loop of \<open>SetCurrentRegion\<close>: the index of the first region with the given code,
  counting from \<open>i\<close>; \<open>None\<close> when the loop ends without a match.\<close>

fun firstRegionIndex :: "Region list \<Rightarrow> string \<Rightarrow> nat \<Rightarrow> nat option" where
  "firstRegionIndex [] region i = None"
| "firstRegionIndex (reg # regs) region i =
     (if Code reg = region then Some i else firstRegionIndex regs region (Suc i))"

definition SetCurrentRegion :: "string \<Rightarrow> RegionSelector \<Rightarrow> RegionSelector" where
  "SetCurrentRegion region r =
     (let r1 = r\<lparr>currentRegion := region\<rparr>
      in case firstRegionIndex (flatRegions r1) region 0 of
           None \<Rightarrow> r1
         | Some i \<Rightarrow> clampOffset (r1\<lparr>cursor := of_nat i\<rparr>))"

definition SelectedRegion :: "RegionSelector \<Rightarrow> string" where
  "SelectedRegion r =
     (if 0 \<le>s cursor r \<and> cursor r <s len_flatRegions r
      then Code (flatRegions r ! nat (sint (cursor r))) else [])"

datatype selectorOp = OpUp | OpDown | OpSetCurrentRegion string

fun applyOp :: "RegionSelector \<Rightarrow> selectorOp \<Rightarrow> RegionSelector" where
  "applyOp r OpUp = Up r"
| "applyOp r OpDown = Down r"
| "applyOp r (OpSetCurrentRegion region) = SetCurrentRegion region r"

definition runOps :: "selectorOp list \<Rightarrow> RegionSelector \<Rightarrow> RegionSelector" where
  "runOps ops r = foldl applyOp r ops"

text \<open>The invariant, with the comparisons and the addition as the program would evaluate
  them.\<close>

definition cursorVisible :: "RegionSelector \<Rightarrow> bool" where
  "cursorVisible r \<longleftrightarrow>
     0 \<le>s offset r \<and> offset r \<le>s cursor r \<and> cursor r <s len_flatRegions r \<and>
     cursor r <s offset r + visibleCount r"

text \<open>Auxiliary notions for the proofs: the visible count as an integer, and the invariant
  read on integers, once as the operations leave it (\<open>clampedState\<close>: the offset is also at
  most the largest useful offset) and once as the stated invariant means it
  (\<open>windowState\<close>: in particular \<open>offset + visibleCount\<close> does not wrap around).\<close>

definition visibleInt :: "RegionSelector \<Rightarrow> int" where
  "visibleInt r = sint (visibleCount r)"

definition clampedState :: "RegionSelector \<Rightarrow> bool" where
  "clampedState r \<longleftrightarrow>
     flatRegions r = flattenRegions \<and> 0 \<le> sint (offset r) \<and>
     sint (offset r) \<le> sint (cursor r) \<and> sint (cursor r) < 18 \<and>
     sint (cursor r) < sint (offset r) + visibleInt r \<and>
     sint (offset r) \<le> max 0 (18 - visibleInt r)"

definition windowState :: "RegionSelector \<Rightarrow> bool" where
  "windowState r \<longleftrightarrow>
     flatRegions r = flattenRegions \<and> 0 \<le> sint (offset r) \<and>
     sint (offset r) \<le> sint (cursor r) \<and> sint (cursor r) < 18 \<and>
     sint (cursor r) < sint (offset r) + visibleInt r \<and>
     sint (offset r) + visibleInt r < 2 ^ 63"

section \<open>Starting tunnels (internal/ui/tunnels.go)\<close>

text \<open>
  Go's \<open>error\<close> values: the deadline error of a context, an error of a remote service, and
  \<open>fmt.Errorf("<prefix>: %w", err)\<close>, which wraps an error under a prefix.
\<close>

datatype error = DeadlineExceeded | ServiceError string | Wrapped string error

text \<open>
  The values that travel through this file. The structs of package \<open>model\<close> are not part
  of the sources; the fields the file reads are kept (\<open>EndpointType\<close>, \<open>Name\<close>, \<open>VpcID\<close>), the
  rest of each struct is only passed on and is stood for by an identifier. The parameter
  \<open>api interface{}\<close> holds a \<open>*model.RestAPI\<close>, a \<open>*model.HttpAPI\<close>, a value of another
  type, or nothing. (A typed nil \<open>*model.RestAPI\<close>, on which \<open>startAPIGatewayTunnel\<close> panics
  when it reads the endpoint type, is not an API and is left out.)
\<close>

record RestAPI =
  RestAPI_ID :: string
  EndpointType :: string

record HttpAPI =
  HttpAPI_ID :: string

datatype api = NilAPI | RestAPIPtr RestAPI | HttpAPIPtr HttpAPI | OtherAPI string

record APIStage =
  StageName :: string

record EC2Instance =
  InstanceID :: string
  InstanceName :: string
  VpcID :: string

type_synonym VpcEndpoint = string
type_synonym Service = string
type_synonym Task = string
type_synonym Container = string
type_synonym Tunnel = string
type_synonym APIGatewayTunnel = string

text \<open>
  \<open>context.WithTimeout(context.Background(), d * time.Second)\<close>: a context is known by its
  deadline \<open>d\<close>, in seconds from its creation.
\<close>

datatype ctx = WithTimeout nat

fun deadline :: "ctx \<Rightarrow> nat" where
  "deadline (WithTimeout d) = d"

text \<open>
  The collaborators a command reaches through \<open>m.client\<close>, \<open>m.tunnelManager\<close> and
  \<open>m.apiGWManager\<close>; their code is outside this file. Each takes the context first and
  returns Go's pair of a result (\<open>None\<close> for nil) and an error (\<open>None\<close> for nil).
\<close>

record Env =
  StartTunnel :: "ctx \<Rightarrow> Service \<Rightarrow> Task \<Rightarrow> Container \<Rightarrow> int \<Rightarrow> int \<Rightarrow> Tunnel option \<times> error option"
  StartPublicTunnel :: "ctx \<Rightarrow> api \<Rightarrow> APIStage \<Rightarrow> int \<Rightarrow> APIGatewayTunnel option \<times> error option"
  StartPrivateTunnel ::
    "ctx \<Rightarrow> api \<Rightarrow> APIStage \<Rightarrow> EC2Instance \<Rightarrow> VpcEndpoint option \<Rightarrow> string \<Rightarrow> int
      \<Rightarrow> APIGatewayTunnel option \<times> error option"
  FindJumpHost ::
    "ctx \<Rightarrow> string \<Rightarrow> string \<Rightarrow> string \<Rightarrow> string list \<Rightarrow> string list
      \<Rightarrow> EC2Instance option \<times> error option"
  FindAPIGatewayVpcEndpoint :: "ctx \<Rightarrow> string \<Rightarrow> VpcEndpoint option \<times> error option"
  ListSSMManagedInstances :: "ctx \<Rightarrow> EC2Instance list \<times> error option"

text \<open>The calls a command makes on its collaborators, in order, each with its context.\<close>

datatype extcall =
    Call_StartTunnel ctx
  | Call_StartPublicTunnel ctx
  | Call_StartPrivateTunnel ctx
  | Call_FindJumpHost ctx
  | Call_FindAPIGatewayVpcEndpoint ctx
  | Call_ListSSMManagedInstances ctx

record jumpHostFound =
  jumpHost :: "EC2Instance option"
  vpcEndpoint :: "VpcEndpoint option"
  vpcEndpointErr :: "error option"
  found_stage :: APIStage
  found_api :: api
  found_localPort :: int
  found_err :: "error option"

datatype Msg =
    tunnelStartedMsg "Tunnel option" "error option"
  | apiGWTunnelStartedMsg "APIGatewayTunnel option" "error option"
  | jumpHostFoundMsg jumpHostFound
  | ec2InstancesLoadedMsg "EC2Instance list" "error option"
  | spinnerTickMsg

text \<open>
  A \<open>tea.Cmd\<close> is a closure \<open>func() tea.Msg\<close> that the runtime runs later. Run against the
  collaborators it yields its message (\<open>None\<close> when the closure panics on a nil pointer)
  and the calls it made. \<open>tea.Batch\<close> of several commands is the list of them.
\<close>

type_synonym Cmd = "Env \<Rightarrow> Msg option \<times> extcall list"

datatype View = ViewAPIStages | ViewJumpHostSelect | ViewOther string

record State =
  Profile :: string
  View :: View
  PendingTunnelAPI :: api
  PendingTunnelStage :: "APIStage option"
  PendingTunnelLocalPort :: int
  EC2InstancesLoading :: bool

text \<open>The configuration, as far as this file asks it: three lookups by profile and the two
  default lists.\<close>

record Config =
  GetJumpHost :: "string \<Rightarrow> string"
  GetJumpHostTag :: "string \<Rightarrow> string"
  GetVPCEndpointID :: "string \<Rightarrow> string"
  Defaults_JumpHostTags :: "string list"
  Defaults_JumpHostNames :: "string list"

record Model =
  state :: State
  cfg :: "Config option"
  logger :: "string list"
  ec2List_loading :: bool

definition logger_Info :: "string \<Rightarrow> Model \<Rightarrow> Model" where
  "logger_Info line m = m\<lparr>logger := logger m @ [line]\<rparr>"

definition startTunnelWithPort :: "Service \<Rightarrow> Task \<Rightarrow> Container \<Rightarrow> int \<Rightarrow> int \<Rightarrow> Cmd" where
  "startTunnelWithPort service task container remotePort localPort = (\<lambda>env.
     let c = WithTimeout 30;
         (tunnel, err) = StartTunnel env c service task container remotePort localPort
     in (Some (tunnelStartedMsg tunnel err), [Call_StartTunnel c]))"

definition startTunnel :: "Service \<Rightarrow> Task \<Rightarrow> Container \<Rightarrow> int \<Rightarrow> Cmd" where
  "startTunnel service task container remotePort =
     startTunnelWithPort service task container remotePort 0"

definition startPublicAPIGWTunnel :: "api \<Rightarrow> APIStage \<Rightarrow> int \<Rightarrow> Cmd" where
  "startPublicAPIGWTunnel a stage localPort = (\<lambda>env.
     let c = WithTimeout 30;
         (tunnel, err) = StartPublicTunnel env c a stage localPort
     in (Some (apiGWTunnelStartedMsg tunnel err), [Call_StartPublicTunnel c]))"

text \<open>\<open>loadEC2Instances\<close> of loaders.go: it marks the instance list as loading and returns the
  batch of the spinner's tick and the command that lists the instances.\<close>

definition spinnerTickCmd :: Cmd where
  "spinnerTickCmd = (\<lambda>env. (Some spinnerTickMsg, []))"

definition listInstancesCmd :: Cmd where
  "listInstancesCmd = (\<lambda>env.
     let c = WithTimeout 30;
         (instances, err) = ListSSMManagedInstances env c
     in (Some (ec2InstancesLoadedMsg instances err), [Call_ListSSMManagedInstances c]))"

definition loadEC2Instances :: "Model \<Rightarrow> Model \<times> Cmd list" where
  "loadEC2Instances m =
     (let m1 = m\<lparr>state := (state m)\<lparr>EC2InstancesLoading := True\<rparr>\<rparr>;
          m2 = m1\<lparr>ec2List_loading := True\<rparr>;
          m3 = logger_Info ''Loading SSM-managed EC2 instances...'' m2
      in (m3, [spinnerTickCmd, listInstancesCmd]))"

text \<open>The test of \<open>startAPIGatewayTunnel\<close>: private only for a \<open>*model.RestAPI\<close> whose endpoint
  type is \<open>"PRIVATE"\<close>.\<close>

fun isPrivate :: "api \<Rightarrow> bool" where
  "isPrivate (RestAPIPtr restAPI) = (EndpointType restAPI = ''PRIVATE'')"
| "isPrivate _ = False"

definition startAPIGatewayTunnel :: "Model \<Rightarrow> api \<Rightarrow> APIStage \<Rightarrow> int \<Rightarrow> Model \<times> Cmd list" where
  "startAPIGatewayTunnel m a stage localPort =
     (if isPrivate a then
        let m1 = logger_Info ''Loading EC2 instances for jump host selection...'' m;
            m2 = m1\<lparr>state := (state m1)\<lparr>PendingTunnelAPI := a\<rparr>\<rparr>;
            m3 = m2\<lparr>state := (state m2)\<lparr>PendingTunnelStage := Some stage\<rparr>\<rparr>;
            m4 = m3\<lparr>state := (state m3)\<lparr>PendingTunnelLocalPort := localPort\<rparr>\<rparr>;
            m5 = m4\<lparr>state := (state m4)\<lparr>View := ViewJumpHostSelect\<rparr>\<rparr>;
            m6 = m5\<lparr>state := (state m5)\<lparr>EC2InstancesLoading := True\<rparr>\<rparr>
        in loadEC2Instances m6
      else
        let m1 = logger_Info (''Starting public API Gateway proxy for stage: '' @ StageName stage) m
        in (m1, [startPublicAPIGWTunnel a stage localPort]))"

text \<open>The arguments \<open>findJumpHostForAPIGateway\<close> prepares for the resolver: the two settings
  of the current profile (empty without a configuration) and the default tag and name
  lists, which the configuration replaces when its own lists are not empty.\<close>

definition jumpHostConfig :: "Model \<Rightarrow> string" where
  "jumpHostConfig m = (case cfg m of None \<Rightarrow> [] | Some cf \<Rightarrow> GetJumpHost cf (Profile (state m)))"

definition jumpHostTagConfig :: "Model \<Rightarrow> string" where
  "jumpHostTagConfig m =
     (case cfg m of None \<Rightarrow> [] | Some cf \<Rightarrow> GetJumpHostTag cf (Profile (state m)))"

definition defaultTags :: "Model \<Rightarrow> string list" where
  "defaultTags m =
     (let tags = [''vaws:jump-host=true'', ''Name=bastion'', ''Name=jump-host'']
      in case cfg m of
           None \<Rightarrow> tags
         | Some cf \<Rightarrow>
             if length (Defaults_JumpHostTags cf) > 0 then Defaults_JumpHostTags cf else tags)"

definition defaultNames :: "Model \<Rightarrow> string list" where
  "defaultNames m =
     (let names = [''bastion'', ''jump-host'', ''jumphost'']
      in case cfg m of
           None \<Rightarrow> names
         | Some cf \<Rightarrow>
             if length (Defaults_JumpHostNames cf) > 0 then Defaults_JumpHostNames cf else names)"

text \<open>
  \<open>findJumpHostForAPIGateway\<close>. An error of the resolver ends the command with a message
  that carries only the wrapped error. Otherwise the jump host is dereferenced (a nil jump
  host with a nil error panics), the endpoint is looked up when the jump host has a VPC,
  and the message carries the jump host, the endpoint and the endpoint's error.
\<close>

definition findJumpHostForAPIGateway :: "Model \<Rightarrow> api \<Rightarrow> APIStage \<Rightarrow> int \<Rightarrow> Cmd" where
  "findJumpHostForAPIGateway m a stage localPort = (\<lambda>env.
     let c = WithTimeout 60;
         (jh, err) =
           FindJumpHost env c [] (jumpHostConfig m) (jumpHostTagConfig m) (defaultTags m)
             (defaultNames m)
     in case err of
          Some e \<Rightarrow>
            (Some (jumpHostFoundMsg
               \<lparr>jumpHost = None, vpcEndpoint = None, vpcEndpointErr = None,
                found_stage = \<lparr>StageName = []\<rparr>, found_api = NilAPI, found_localPort = 0,
                found_err = Some (Wrapped ''failed to find jump host'' e)\<rparr>),
             [Call_FindJumpHost c])
        | None \<Rightarrow>
            (case jh of
               None \<Rightarrow> (None, [Call_FindJumpHost c])
             | Some jumpHost' \<Rightarrow>
                 let (ep, epErr, calls) =
                       (if VpcID jumpHost' \<noteq> [] then
                          let (ep, epErr) = FindAPIGatewayVpcEndpoint env c (VpcID jumpHost')
                          in (ep, epErr, [Call_FindAPIGatewayVpcEndpoint c])
                        else (None, None, []))
                 in (Some (jumpHostFoundMsg
                       \<lparr>jumpHost = Some jumpHost', vpcEndpoint = ep, vpcEndpointErr = epErr,
                        found_stage = stage, found_api = a, found_localPort = localPort,
                        found_err = None\<rparr>),
                     Call_FindJumpHost c # calls)))"





definition bastion :: EC2Instance where
  "bastion = \<lparr>InstanceID = ''i-0123'', InstanceName = ''bastion'', VpcID = ''vpc-1''\<rparr>"

definition slowEnv :: Env where
  "slowEnv =
     \<lparr>StartTunnel = (\<lambda>c service task container remotePort localPort. (Some ''tunnel'', None)),
      StartPublicTunnel = (\<lambda>c a stage localPort. (Some ''proxy'', None)),
      StartPrivateTunnel = (\<lambda>c a stage jh ep configured localPort.
         if deadline c < 45 then (None, Some DeadlineExceeded) else (Some ''private'', None)),
      FindJumpHost = (\<lambda>c vpc name tag tags names. (Some bastion, None)),
      FindAPIGatewayVpcEndpoint = (\<lambda>c vpc. (None, Some (ServiceError ''no endpoint''))),
      ListSSMManagedInstances = (\<lambda>c. ([bastion], None))\<rparr>"

definition idleModel :: Model where
  "idleModel =
     \<lparr>state = \<lparr>Profile = ''default'', View = ViewAPIStages, PendingTunnelAPI = NilAPI,
        PendingTunnelStage = None, PendingTunnelLocalPort = 0, EC2InstancesLoading = False\<rparr>,
      cfg = None, logger = [], ec2List_loading = False\<rparr>"

definition privateAPI :: api where
  "privateAPI = RestAPIPtr \<lparr>RestAPI_ID = ''abc123'', EndpointType = ''PRIVATE''\<rparr>"

definition regionalAPI :: api where
  "regionalAPI = RestAPIPtr \<lparr>RestAPI_ID = ''def456'', EndpointType = ''REGIONAL''\<rparr>"

definition prodStage :: APIStage where
  "prodStage = \<lparr>StageName = ''prod''\<rparr>"





section \<open>The SQS loader (package aws)\<close>

text \<open>
  A queue, as far as the loader looks at it. \<open>convertQueueAttributes\<close> sets the URL, the name
  (from the URL) and the type (from the name), copies the ARN and parses the remaining
  attributes (message counts, timeouts, the redrive policy) into further fields; those
  fields are functions of the attribute map and are stood for by the map itself. The zero
  value of the struct, which fills the slots of failed fetches, has every field empty.
\<close>

datatype QueueType = QueueTypeUnset | QueueTypeStandard | QueueTypeFIFO

record Queue =
  URL :: string
  Name :: string
  Type :: QueueType
  ARN :: string
  Attributes :: "(string \<times> string) list"

definition zeroQueue :: Queue where
  "zeroQueue = \<lparr>URL = [], Name = [], Type = QueueTypeUnset, ARN = [], Attributes = []\<rparr>"

definition convertQueueAttributes :: "string \<Rightarrow> (string \<times> string) list \<Rightarrow> Queue" where
  "convertQueueAttributes url attrs =
     (let name = extractQueueNameFromURL_aws url
      in \<lparr>URL = url, Name = name,
          Type = (if suffix ''.fifo'' name then QueueTypeFIFO else QueueTypeStandard),
          ARN = (case map_of attrs ''QueueArn'' of Some arn \<Rightarrow> arn | None \<Rightarrow> []),
          Attributes = attrs\<rparr>)"

text \<open>
  The remote call \<open>c.sqs.GetQueueAttributes\<close> answers a queue URL with an error or with the
  attribute map. \<open>GetQueueAttributes\<close> wraps the error or converts the attributes.
\<close>

type_synonym sqsAPI = "string \<Rightarrow> error + (string \<times> string) list"

definition GetQueueAttributes :: "sqsAPI \<Rightarrow> string \<Rightarrow> error + Queue" where
  "GetQueueAttributes sqs queueURL =
     (case sqs queueURL of
        Inl e \<Rightarrow> Inl (Wrapped ''failed to get queue attributes'' e)
      | Inr attrs \<Rightarrow> Inr (convertQueueAttributes queueURL attrs))"

text \<open>
  \<open>strings.ToLower\<close> on ASCII bytes (queue names are ASCII: letters, digits, hyphens and
  underscores, with the suffix \<open>.fifo\<close>); Go compares strings byte by byte, which is the
  lexicographic order of \<open>char\<close> lists.
\<close>

definition toLowerByte :: "char \<Rightarrow> char" where
  "toLowerByte c =
     (if CHR ''A'' \<le> c \<and> c \<le> CHR ''Z'' then char_of (of_char c + (32::nat)) else c)"

definition ToLower :: "string \<Rightarrow> string" where
  "ToLower s = map toLowerByte s"

text \<open>The comparison both sorts pass to \<open>sort.Slice\<close>.\<close>

definition lessByLowerName :: "Queue \<Rightarrow> Queue \<Rightarrow> bool" where
  "lessByLowerName a b \<longleftrightarrow> ToLower (Name a) < ToLower (Name b)"

text \<open>
  One message on the \<open>results\<close> channel: the index of the goroutine, and the queue or the
  error it got. The goroutine with index \<open>idx\<close> sends the outcome of \<open>GetQueueAttributes\<close>
  for its URL.
\<close>

record queueResult =
  index :: nat
  outcome :: "error + Queue"

definition goroutineResult :: "sqsAPI \<Rightarrow> nat \<Rightarrow> string \<Rightarrow> queueResult" where
  "goroutineResult sqs idx queueURL = \<lparr>index = idx, outcome = GetQueueAttributes sqs queueURL\<rparr>"

text \<open>
  The goroutines run concurrently, so the order in which their messages arrive is not
  fixed by the program: \<open>arrival\<close> lists the indices in the order of arrival. Every
  goroutine sends exactly one message before the channel is closed, so \<open>arrival\<close> is a
  permutation of \<open>0, ..., len(queueURLs) - 1\<close>.
\<close>

definition channelContents :: "sqsAPI \<Rightarrow> nat list \<Rightarrow> string list \<Rightarrow> queueResult list" where
  "channelContents sqs arrival queueURLs =
     map (\<lambda>i. goroutineResult sqs i (queueURLs ! i)) arrival"

text \<open>The lines written to the log at the levels \<open>Warn\<close> and \<open>Info\<close>: the format string and
  its argument (an error, or numbers).\<close>

datatype logLine = Warn string error | Info string "nat list"

text \<open>
  The collecting loop \<open>for result := range results\<close>: a failed fetch is logged and skipped,
  a fetched queue is stored at its index and counted.
\<close>

fun collectResults ::
  "queueResult list \<Rightarrow> Queue list \<times> nat \<times> logLine list \<Rightarrow> Queue list \<times> nat \<times> logLine list" where
  "collectResults [] acc = acc"
| "collectResults (result # rest) (queues, validCount, lg) =
     (case outcome result of
        Inl e \<Rightarrow> collectResults rest
            (queues, validCount, lg @ [Warn ''Failed to get attributes for queue: %v'' e])
      | Inr q \<Rightarrow> collectResults rest (queues[index result := q], validCount + 1, lg))"

text \<open>The filter that drops the empty slots: an entry is kept when its URL is not empty.\<close>

definition validQueues :: "Queue list \<Rightarrow> Queue list" where
  "validQueues queues = filter (\<lambda>q. URL q \<noteq> []) queues"

text \<open>
  \<open>fetchQueueAttributesBatch\<close>. \<open>sort.Slice\<close> belongs to Go's standard library; the function is
  written over the sort it is given (\<open>sortSlice lt xs\<close> is the slice \<open>xs\<close> after the call
  \<open>sort.Slice(xs, lt)\<close>). The result is the returned slice and the warnings logged.
\<close>

definition fetchQueueAttributesBatch ::
  "((Queue \<Rightarrow> Queue \<Rightarrow> bool) \<Rightarrow> Queue list \<Rightarrow> Queue list) \<Rightarrow> sqsAPI \<Rightarrow> nat list \<Rightarrow> string list
     \<Rightarrow> Queue list \<times> logLine list" where
  "fetchQueueAttributesBatch sortSlice sqs arrival queueURLs =
     (let results = channelContents sqs arrival queueURLs;
          (queues, validCount, lg) =
             collectResults results (replicate (length queueURLs) zeroQueue, 0, [])
      in (sortSlice lessByLowerName (validQueues queues), lg))"

text \<open>
  What \<open>sort.Slice\<close> promises for a comparison that is a strict weak order: the slice
  afterwards holds the same elements and no element is less than an earlier one. Nothing
  is promised about the order of elements that compare equal.
\<close>

definition meetsSortContract ::
  "(('a \<Rightarrow> 'a \<Rightarrow> bool) \<Rightarrow> 'a list \<Rightarrow> 'a list) \<Rightarrow> ('a \<Rightarrow> 'a \<Rightarrow> bool) \<Rightarrow> bool" where
  "meetsSortContract sortSlice lt \<longleftrightarrow>
     (\<forall>xs. mset (sortSlice lt xs) = mset xs \<and>
           sorted_wrt (\<lambda>a b. \<not> lt b a) (sortSlice lt xs))"

text \<open>The queues of the successful fetches, in the order of the URLs of the page.\<close>

definition fetchedQueues :: "sqsAPI \<Rightarrow> string list \<Rightarrow> Queue list" where
  "fetchedQueues sqs queueURLs =
     concat (map (\<lambda>u. case GetQueueAttributes sqs u of Inl e \<Rightarrow> [] | Inr q \<Rightarrow> [q]) queueURLs)"

text \<open>The errors of the failed fetches, in the order of arrival.\<close>

definition fetchErrors :: "sqsAPI \<Rightarrow> nat list \<Rightarrow> string list \<Rightarrow> error list" where
  "fetchErrors sqs arrival queueURLs =
     concat (map (\<lambda>i. case GetQueueAttributes sqs (queueURLs ! i) of Inl e \<Rightarrow> [e] | Inr q \<Rightarrow> [])
       arrival)"

text \<open>What the collecting loop leaves at the index of a URL: the queue fetched, or the
  zero value when the fetch failed.\<close>

definition slot :: "sqsAPI \<Rightarrow> string \<Rightarrow> Queue" where
  "slot sqs u = (case GetQueueAttributes sqs u of Inl e \<Rightarrow> zeroQueue | Inr q \<Rightarrow> q)"

section \<open>Go's \<open>sort.Slice\<close>\<close>

text \<open>
  \<open>sort.Slice\<close> is part of Go's standard library (package \<open>sort\<close>; since Go 1.19 a
  pattern-defeating quicksort, \<open>pdqsort_func\<close>). Its documentation promises a sorted slice
  and says that the sort is not stable. The functions below follow the library's
  algorithm on a list with the comparison \<open>lt\<close>: the same comparisons and the same swaps,
  in the same order. They cover the runs that stay on the main path of the algorithm:
  slices shorter than 50 elements (longer ones choose the pivot by a ninther and shift
  elements in the partial insertion sort) whose partitions stay balanced (after an
  unbalanced partition the library swaps elements at pseudo-random positions and may
  fall back to heap sort). For a run that leaves this path the model yields \<open>None\<close>.
\<close>

definition Swap :: "'a list \<Rightarrow> nat \<Rightarrow> nat \<Rightarrow> 'a list" where
  "Swap xs i j = xs[i := xs ! j, j := xs ! i]"

text \<open>\<open>insertionSort_func\<close>: the inner loop moves the element at \<open>j\<close> down while it is less
  than its left neighbour and \<open>j > a\<close>; the outer loop does so for each \<open>i\<close> from \<open>a + 1\<close>
  to \<open>b - 1\<close>.\<close>

fun insertionInner :: "('a \<Rightarrow> 'a \<Rightarrow> bool) \<Rightarrow> 'a list \<Rightarrow> nat \<Rightarrow> nat \<Rightarrow> 'a list" where
  "insertionInner lt xs a 0 = xs"
| "insertionInner lt xs a (Suc j) =
     (if a < Suc j \<and> lt (xs ! Suc j) (xs ! j) then insertionInner lt (Swap xs (Suc j) j) a j
      else xs)"

function insertionOuter :: "('a \<Rightarrow> 'a \<Rightarrow> bool) \<Rightarrow> 'a list \<Rightarrow> nat \<Rightarrow> nat \<Rightarrow> nat \<Rightarrow> 'a list" where
  "insertionOuter lt xs a b i =
     (if i < b then insertionOuter lt (insertionInner lt xs a i) a b (i + 1) else xs)"
  by pat_completeness auto
termination
  by (relation "measure (\<lambda>(lt, xs, a, b, i). b - i)") auto

declare insertionOuter.simps [simp del]

definition insertionSort_func :: "('a \<Rightarrow> 'a \<Rightarrow> bool) \<Rightarrow> 'a list \<Rightarrow> nat \<Rightarrow> nat \<Rightarrow> 'a list" where
  "insertionSort_func lt xs a b = insertionOuter lt xs a b (a + 1)"

text \<open>\<open>choosePivot_func\<close> for a slice of 8 to 49 elements: the median of the elements at
  one, two and three quarters, and the number of exchanges it took to order them. No
  exchange gives the hint that the slice may be sorted already.\<close>

datatype sortedHint = unknownHint | increasingHint | decreasingHint

definition order2_func ::
  "('a \<Rightarrow> 'a \<Rightarrow> bool) \<Rightarrow> 'a list \<Rightarrow> nat \<Rightarrow> nat \<Rightarrow> nat \<Rightarrow> nat \<times> nat \<times> nat" where
  "order2_func lt xs a b swaps = (if lt (xs ! b) (xs ! a) then (b, a, swaps + 1) else (a, b, swaps))"

definition median_func ::
  "('a \<Rightarrow> 'a \<Rightarrow> bool) \<Rightarrow> 'a list \<Rightarrow> nat \<Rightarrow> nat \<Rightarrow> nat \<Rightarrow> nat \<Rightarrow> nat \<times> nat" where
  "median_func lt xs a b c swaps =
     (let (a1, b1, s1) = order2_func lt xs a b swaps;
          (b2, c2, s2) = order2_func lt xs b1 c s1;
          (a3, b3, s3) = order2_func lt xs a1 b2 s2
      in (b3, s3))"

definition choosePivot_func ::
  "('a \<Rightarrow> 'a \<Rightarrow> bool) \<Rightarrow> 'a list \<Rightarrow> nat \<Rightarrow> nat \<Rightarrow> nat \<times> sortedHint" where
  "choosePivot_func lt xs a b =
     (let l = b - a;
          i = a + l div 4 * 1;
          j = a + l div 4 * 2;
          k = a + l div 4 * 3;
          (j', swaps) = (if l \<ge> 8 then median_func lt xs i j k 0 else (j, 0))
      in if swaps = 0 then (j', increasingHint)
         else if swaps = 4 * 3 then (j', decreasingHint)
         else (j', unknownHint))"

text \<open>\<open>partialInsertionSort_func\<close> for a slice shorter than 50: it walks up while the
  elements are in order and reports whether it reached the end; it changes nothing.\<close>

function orderedUpTo :: "('a \<Rightarrow> 'a \<Rightarrow> bool) \<Rightarrow> 'a list \<Rightarrow> nat \<Rightarrow> nat \<Rightarrow> nat" where
  "orderedUpTo lt xs i b =
     (if i < b \<and> \<not> lt (xs ! i) (xs ! (i - 1)) then orderedUpTo lt xs (i + 1) b else i)"
  by pat_completeness auto
termination
  by (relation "measure (\<lambda>(lt, xs, i, b). b - i)") auto

declare orderedUpTo.simps [simp del]

definition partialInsertionSort_func :: "('a \<Rightarrow> 'a \<Rightarrow> bool) \<Rightarrow> 'a list \<Rightarrow> nat \<Rightarrow> nat \<Rightarrow> bool" where
  "partialInsertionSort_func lt xs a b = (orderedUpTo lt xs (a + 1) b = b)"

text \<open>
  \<open>partition_func\<close>. The pivot goes to position \<open>a\<close>. \<open>i\<close> walks up over the elements less
  than the pivot, \<open>j\<close> walks down over those not less; when they have not crossed, the two
  elements are exchanged and the walk goes on. At the end the pivot is exchanged with the
  element at \<open>j\<close>. The result is the list, the place of the pivot, and whether no
  exchange was needed.
\<close>

function walkUp :: "('a \<Rightarrow> 'a \<Rightarrow> bool) \<Rightarrow> 'a list \<Rightarrow> nat \<Rightarrow> nat \<Rightarrow> nat \<Rightarrow> nat" where
  "walkUp lt xs a i j = (if i \<le> j \<and> lt (xs ! i) (xs ! a) then walkUp lt xs a (i + 1) j else i)"
  by pat_completeness auto
termination
  by (relation "measure (\<lambda>(lt, xs, a, i, j). Suc j - i)") auto

declare walkUp.simps [simp del]

fun walkDown :: "('a \<Rightarrow> 'a \<Rightarrow> bool) \<Rightarrow> 'a list \<Rightarrow> nat \<Rightarrow> nat \<Rightarrow> nat \<Rightarrow> nat" where
  "walkDown lt xs a i 0 = 0"
| "walkDown lt xs a i (Suc j) =
     (if i \<le> Suc j \<and> \<not> lt (xs ! Suc j) (xs ! a) then walkDown lt xs a i j else Suc j)"

primrec partitionLoop ::
  "nat \<Rightarrow> ('a \<Rightarrow> 'a \<Rightarrow> bool) \<Rightarrow> 'a list \<Rightarrow> nat \<Rightarrow> nat \<Rightarrow> nat \<Rightarrow> 'a list \<times> nat" where
  "partitionLoop 0 lt xs a i j = (xs, j)"
| "partitionLoop (Suc n) lt xs a i j =
     (let i' = walkUp lt xs a i j;
          j' = walkDown lt xs a i' j
      in if i' > j' then (xs, j')
         else partitionLoop n lt (Swap xs i' j') a (i' + 1) (j' - 1))"

definition partition_func ::
  "('a \<Rightarrow> 'a \<Rightarrow> bool) \<Rightarrow> 'a list \<Rightarrow> nat \<Rightarrow> nat \<Rightarrow> nat \<Rightarrow> 'a list \<times> nat \<times> bool" where
  "partition_func lt xs a b pivot =
     (let xs1 = Swap xs a pivot;
          i = walkUp lt xs1 a (a + 1) (b - 1);
          j = walkDown lt xs1 a i (b - 1)
      in if i > j then (Swap xs1 j a, j, True)
         else
           let xs2 = Swap xs1 i j;
               (xs3, j') = partitionLoop (b - a) lt xs2 a (i + 1) (j - 1)
           in (Swap xs3 j' a, j', False))"

text \<open>
  \<open>partitionEqual_func\<close>, used when the pivot is not greater than the element before the
  slice: it puts the elements equal to the pivot first and returns where the greater
  ones begin.
\<close>

function walkUpEqual :: "('a \<Rightarrow> 'a \<Rightarrow> bool) \<Rightarrow> 'a list \<Rightarrow> nat \<Rightarrow> nat \<Rightarrow> nat \<Rightarrow> nat" where
  "walkUpEqual lt xs a i j =
     (if i \<le> j \<and> \<not> lt (xs ! a) (xs ! i) then walkUpEqual lt xs a (i + 1) j else i)"
  by pat_completeness auto
termination
  by (relation "measure (\<lambda>(lt, xs, a, i, j). Suc j - i)") auto

declare walkUpEqual.simps [simp del]

fun walkDownEqual :: "('a \<Rightarrow> 'a \<Rightarrow> bool) \<Rightarrow> 'a list \<Rightarrow> nat \<Rightarrow> nat \<Rightarrow> nat \<Rightarrow> nat" where
  "walkDownEqual lt xs a i 0 = 0"
| "walkDownEqual lt xs a i (Suc j) =
     (if i \<le> Suc j \<and> lt (xs ! a) (xs ! Suc j) then walkDownEqual lt xs a i j else Suc j)"

primrec partitionEqualLoop ::
  "nat \<Rightarrow> ('a \<Rightarrow> 'a \<Rightarrow> bool) \<Rightarrow> 'a list \<Rightarrow> nat \<Rightarrow> nat \<Rightarrow> nat \<Rightarrow> 'a list \<times> nat" where
  "partitionEqualLoop 0 lt xs a i j = (xs, i)"
| "partitionEqualLoop (Suc n) lt xs a i j =
     (let i' = walkUpEqual lt xs a i j;
          j' = walkDownEqual lt xs a i' j
      in if i' > j' then (xs, i')
         else partitionEqualLoop n lt (Swap xs i' j') a (i' + 1) (j' - 1))"

definition partitionEqual_func ::
  "('a \<Rightarrow> 'a \<Rightarrow> bool) \<Rightarrow> 'a list \<Rightarrow> nat \<Rightarrow> nat \<Rightarrow> nat \<Rightarrow> 'a list \<times> nat" where
  "partitionEqual_func lt xs a b pivot =
     partitionEqualLoop (Suc (b - a)) lt (Swap xs a pivot) a (a + 1) (b - 1)"

text \<open>\<open>bits.Len\<close>: the number of bits needed to write a number.\<close>

fun bits_Len :: "nat \<Rightarrow> nat" where
  "bits_Len n = (if n = 0 then 0 else Suc (bits_Len (n div 2)))"

declare bits_Len.simps [simp del]

text \<open>
  \<open>pdqsort_func\<close>: the loop of the library, one iteration for each unfolding; the side with
  fewer elements is sorted by the recursive call and the loop goes on with the other
  side. The first argument bounds the depth of the unfolding; each step shortens the
  slice, so the length of the slice is enough.
\<close>

primrec pdqsort_func ::
  "nat \<Rightarrow> ('a \<Rightarrow> 'a \<Rightarrow> bool) \<Rightarrow> 'a list \<Rightarrow> nat \<Rightarrow> nat \<Rightarrow> nat \<Rightarrow> bool \<Rightarrow> bool \<Rightarrow> 'a list option" where
  "pdqsort_func 0 lt xs a b limit wasBalanced wasPartitioned = None"
| "pdqsort_func (Suc n) lt xs a b limit wasBalanced wasPartitioned =
     (let len = b - a in
      if len \<le> 12 then Some (insertionSort_func lt xs a b)
      else if limit = 0 then None
      else if \<not> wasBalanced then None
      else if len \<ge> 50 then None
      else
        let (pivot, hint) = choosePivot_func lt xs a b in
        if hint = decreasingHint then None
        else if wasBalanced \<and> wasPartitioned \<and> hint = increasingHint \<and>
                partialInsertionSort_func lt xs a b then Some xs
        else if a > 0 \<and> \<not> lt (xs ! (a - 1)) (xs ! pivot) then
          let (xs', mid) = partitionEqual_func lt xs a b pivot
          in pdqsort_func n lt xs' mid b limit wasBalanced wasPartitioned
        else
          let (xs', mid, alreadyPartitioned) = partition_func lt xs a b pivot;
              leftLen = mid - a;
              rightLen = b - mid;
              balanceThreshold = len div 8
          in if leftLen < rightLen then
               (case pdqsort_func n lt xs' a mid limit True True of
                  None \<Rightarrow> None
                | Some xs'' \<Rightarrow>
                    pdqsort_func n lt xs'' (mid + 1) b limit (leftLen \<ge> balanceThreshold)
                      alreadyPartitioned)
             else
               (case pdqsort_func n lt xs' (mid + 1) b limit True True of
                  None \<Rightarrow> None
                | Some xs'' \<Rightarrow>
                    pdqsort_func n lt xs'' a mid limit (rightLen \<ge> balanceThreshold)
                      alreadyPartitioned))"

definition sort_Slice :: "('a \<Rightarrow> 'a \<Rightarrow> bool) \<Rightarrow> 'a list \<Rightarrow> 'a list option" where
  "sort_Slice lt xs =
     pdqsort_func (Suc (length xs)) lt xs 0 (length xs) (bits_Len (length xs)) True True"

section \<open>Paginated listing with a callback\<close>

text \<open>
  The paginators of the AWS SDK. A list call answers a continuation token (none on the
  first call) with an error or with a page: the items and the next token. The paginator
  remembers whether the first page is still to be fetched and the token of the next one;
  \<open>HasMorePages\<close> holds before the first page and as long as the last page brought a
  token that is not empty. \<open>NextPage\<close> makes the call; an error leaves the paginator as it
  was.
\<close>

record 'a page =
  Items :: "'a list"
  NextToken :: "string option"

type_synonym 'a listAPI = "string option \<Rightarrow> error + 'a page"

record paginator =
  firstPage :: bool
  nextToken :: "string option"

definition NewPaginator :: paginator where
  "NewPaginator = \<lparr>firstPage = True, nextToken = None\<rparr>"

definition HasMorePages :: "paginator \<Rightarrow> bool" where
  "HasMorePages p \<longleftrightarrow>
     firstPage p \<or> (case nextToken p of None \<Rightarrow> False | Some t \<Rightarrow> length t \<noteq> 0)"

definition NextPage :: "'a listAPI \<Rightarrow> paginator \<Rightarrow> (error + 'a page) \<times> paginator" where
  "NextPage api p =
     (if \<not> HasMorePages p then (Inl (ServiceError ''no more pages available''), p)
      else case api (nextToken p) of
             Inl e \<Rightarrow> (Inl e, p)
           | Inr pg \<Rightarrow> (Inr pg, p\<lparr>firstPage := False, nextToken := NextToken pg\<rparr>))"

text \<open>
  What a run of a paged listing does, in order: the calls of \<open>NextPage\<close> (with the token
  sent) and the invocations of the callback (with its two arguments and its answer).
\<close>

datatype 'a event = NextPageCalled "string option" | CallbackInvoked "'a list" bool bool

text \<open>
  A listing loop runs as long as the service hands out tokens, which may be forever. The
  loops take the number of iterations they may make; \<open>Returned err\<close> is the return of the
  function with that error (\<open>None\<close> for nil), \<open>Running\<close> says that the function has not
  returned within these iterations. The state and the events are those reached so far
  in both cases.
\<close>

datatype outcome = Returned "error option" | Running

text \<open>
  The callback is a closure with variables of its own: it takes its state and returns
  the new one with its answer.
\<close>

type_synonym ('a, 'st) callback = "'st \<Rightarrow> 'a list \<Rightarrow> bool \<Rightarrow> bool \<times> 'st"

text \<open>
  The loop of \<open>ListQueuesPagedCallback\<close>. \<open>fetchBatch\<close> is \<open>c.fetchQueueAttributesBatch\<close> of the
  client. An empty page is skipped without a call of the callback.
\<close>

fun ListQueuesPagedCallback_loop ::
  "nat \<Rightarrow> (string list \<Rightarrow> Queue list) \<Rightarrow> string listAPI \<Rightarrow> (Queue, 'st) callback \<Rightarrow> paginator \<Rightarrow> 'st
     \<Rightarrow> Queue event list \<Rightarrow> outcome \<times> 'st \<times> Queue event list" where
  "ListQueuesPagedCallback_loop 0 fetchBatch api callback p st tr =
     (if HasMorePages p then (Running, st, tr) else (Returned None, st, tr))"
| "ListQueuesPagedCallback_loop (Suc n) fetchBatch api callback p st tr =
     (if HasMorePages p then
        case NextPage api p of
          (Inl e, p') \<Rightarrow>
            (Returned (Some (Wrapped ''failed to list queues'' e)), st,
             tr @ [NextPageCalled (nextToken p)])
        | (Inr pg, p') \<Rightarrow>
            if length (Items pg) = 0 then
              ListQueuesPagedCallback_loop n fetchBatch api callback p' st
                (tr @ [NextPageCalled (nextToken p)])
            else
              let queues = fetchBatch (Items pg);
                  hasMore = HasMorePages p';
                  (continue, st') = callback st queues hasMore;
                  tr' = tr @ [NextPageCalled (nextToken p), CallbackInvoked queues hasMore continue]
              in if \<not> continue then (Returned None, st', tr')
                 else ListQueuesPagedCallback_loop n fetchBatch api callback p' st' tr'
      else (Returned None, st, tr))"

definition ListQueuesPagedCallback ::
  "nat \<Rightarrow> (string list \<Rightarrow> Queue list) \<Rightarrow> string listAPI \<Rightarrow> (Queue, 'st) callback \<Rightarrow> 'st
     \<Rightarrow> outcome \<times> 'st \<times> Queue event list" where
  "ListQueuesPagedCallback n fetchBatch api callback st =
     ListQueuesPagedCallback_loop n fetchBatch api callback NewPaginator st []"

text \<open>
  Lambda functions. Of the configuration the SDK returns and of the function of the model
  the name, the runtime and the state are kept; \<open>convertFunctionConfig\<close> copies the other
  fields one by one in the same way as the runtime.
\<close>

record FunctionConfiguration =
  FunctionName :: "string option"
  Runtime :: string
  State :: string

datatype FunctionState =
  FunctionStateActive | FunctionStatePending | FunctionStateInactive | FunctionStateFailed

record Function =
  fn_Name :: string
  fn_Runtime :: string
  fn_State :: FunctionState

definition aws_ToString :: "string option \<Rightarrow> string" where
  "aws_ToString p = (case p of None \<Rightarrow> [] | Some s \<Rightarrow> s)"

definition convertFunctionConfig :: "FunctionConfiguration \<Rightarrow> Function" where
  "convertFunctionConfig fn =
     \<lparr>fn_Name = aws_ToString (FunctionName fn), fn_Runtime = Runtime fn,
      fn_State =
        (if State fn \<noteq> [] then
           (if State fn = ''Active'' then FunctionStateActive
            else if State fn = ''Pending'' then FunctionStatePending
            else if State fn = ''Inactive'' then FunctionStateInactive
            else if State fn = ''Failed'' then FunctionStateFailed
            else FunctionStateActive)
         else FunctionStateActive)\<rparr>"

definition convertFunction :: "FunctionConfiguration \<Rightarrow> Function" where
  "convertFunction fn = convertFunctionConfig fn"

text \<open>The loop of \<open>ListFunctionsPagedCallback\<close>: every page, also an empty one, goes to the
  callback.\<close>

fun ListFunctionsPagedCallback_loop ::
  "nat \<Rightarrow> FunctionConfiguration listAPI \<Rightarrow> (Function, 'st) callback \<Rightarrow> paginator \<Rightarrow> 'st
     \<Rightarrow> Function event list \<Rightarrow> outcome \<times> 'st \<times> Function event list" where
  "ListFunctionsPagedCallback_loop 0 api callback p st tr =
     (if HasMorePages p then (Running, st, tr) else (Returned None, st, tr))"
| "ListFunctionsPagedCallback_loop (Suc n) api callback p st tr =
     (if HasMorePages p then
        case NextPage api p of
          (Inl e, p') \<Rightarrow>
            (Returned (Some (Wrapped ''failed to list Lambda functions'' e)), st,
             tr @ [NextPageCalled (nextToken p)])
        | (Inr pg, p') \<Rightarrow>
            let functions = map convertFunction (Items pg);
                hasMore = HasMorePages p';
                (continue, st') = callback st functions hasMore;
                tr' = tr @ [NextPageCalled (nextToken p), CallbackInvoked functions hasMore continue]
            in if \<not> continue then (Returned None, st', tr')
               else ListFunctionsPagedCallback_loop n api callback p' st' tr'
      else (Returned None, st, tr))"

definition ListFunctionsPagedCallback ::
  "nat \<Rightarrow> FunctionConfiguration listAPI \<Rightarrow> (Function, 'st) callback \<Rightarrow> 'st
     \<Rightarrow> outcome \<times> 'st \<times> Function event list" where
  "ListFunctionsPagedCallback n api callback st =
     ListFunctionsPagedCallback_loop n api callback NewPaginator st []"

text \<open>An invocation of the callback that was answered with \<open>false\<close>.\<close>

fun answeredFalse :: "'a event \<Rightarrow> bool" where
  "answeredFalse (CallbackInvoked items hasMore continue) = (\<not> continue)"
| "answeredFalse (NextPageCalled token) = False"

section \<open>The lazy loaders of the UI (internal/ui/loaders.go)\<close>

text \<open>
  The messages \<open>queuesLoadedMsg\<close>, \<open>functionsLoadedMsg\<close> and \<open>tablesLoadedMsg\<close> have the same
  four fields and differ in the type of the items.
\<close>

record 'a loadedMsg =
  msg_items :: "'a list"
  msg_err :: "error option"
  msg_hasMore :: bool
  msg_isAppend :: bool

text \<open>
  The closure that \<open>loadQueues\<close>, \<open>loadFunctions\<close> and \<open>loadTables\<close> pass as callback. Its
  state is the variable \<open>isFirst\<close> and the messages sent on \<open>resultChan\<close> so far. It sends
  the batch with \<open>isAppend = !isFirst\<close>, clears \<open>isFirst\<close> and answers \<open>true\<close>.
\<close>

definition lazyLoadCallback :: "('a, bool \<times> 'a loadedMsg list) callback" where
  "lazyLoadCallback st batch hasMore =
     (let (isFirst, resultChan) = st;
          resultChan' = resultChan @
            [\<lparr>msg_items = batch, msg_err = None, msg_hasMore = hasMore, msg_isAppend = \<not> isFirst\<rparr>]
      in (True, (False, resultChan')))"

text \<open>The message sent when the listing returns an error: only the error is set.\<close>

definition errorMsg :: "error \<Rightarrow> 'a loadedMsg" where
  "errorMsg e = \<lparr>msg_items = [], msg_err = Some e, msg_hasMore = False, msg_isAppend = False\<rparr>"

text \<open>
  The goroutine of \<open>loadQueues\<close> when no stack is selected (the branch for a selected stack
  does not paginate): the messages it has sent on \<open>resultChan\<close>, after at most \<open>n\<close> pages.
\<close>

definition loadQueues_lazy ::
  "nat \<Rightarrow> (string list \<Rightarrow> Queue list) \<Rightarrow> string listAPI \<Rightarrow> Queue loadedMsg list" where
  "loadQueues_lazy n fetchBatch api =
     (let (out, (isFirst, resultChan), tr) =
            ListQueuesPagedCallback n fetchBatch api lazyLoadCallback (True, [])
      in case out of
           Returned (Some e) \<Rightarrow> resultChan @ [errorMsg e]
         | _ \<Rightarrow> resultChan)"

text \<open>The same for \<open>loadFunctions\<close> when no stack is selected.\<close>

definition loadFunctions_lazy ::
  "nat \<Rightarrow> FunctionConfiguration listAPI \<Rightarrow> Function loadedMsg list" where
  "loadFunctions_lazy n api =
     (let (out, (isFirst, resultChan), tr) =
            ListFunctionsPagedCallback n api lazyLoadCallback (True, [])
      in case out of
           Returned (Some e) \<Rightarrow> resultChan @ [errorMsg e]
         | _ \<Rightarrow> resultChan)"

text \<open>
  \<open>loadTables\<close>. \<open>ListTablesPagedCallback\<close> is not part of the sources. Whatever it does, it
  invokes the closure some number of times, and the closure always answers \<open>true\<close>;
  \<open>invocations\<close> lists the arguments of these invocations in order, and \<open>listErr\<close> is
  the error the listing returns in the end.
\<close>

definition loadTables_lazy :: "('t list \<times> bool) list \<Rightarrow> error option \<Rightarrow> 't loadedMsg list" where
  "loadTables_lazy invocations listErr =
     (let (isFirst, resultChan) =
            foldl (\<lambda>st (tables, hasMore). snd (lazyLoadCallback st tables hasMore)) (True, [])
              invocations
      in case listErr of
           Some e \<Rightarrow> resultChan @ [errorMsg e]
         | None \<Rightarrow> resultChan)"

text \<open>The batch messages among the messages delivered: those without an error.\<close>

definition batchMessages :: "'a loadedMsg list \<Rightarrow> 'a loadedMsg list" where
  "batchMessages msgs = filter (\<lambda>m. msg_err m = None) msgs"

text \<open>The state of the closure is in order when \<open>isFirst\<close> holds exactly as long as nothing
  was sent, no message sent has an error, and exactly the first message has
  \<open>isAppend = false\<close>.\<close>

definition closureInOrder :: "bool \<times> 'a loadedMsg list \<Rightarrow> bool" where
  "closureInOrder st \<longleftrightarrow>
     (fst st \<longleftrightarrow> snd st = []) \<and>
     (\<forall>i < length (snd st). msg_err (snd st ! i) = None \<and> msg_isAppend (snd st ! i) = (i \<noteq> 0))"

text \<open>Sources and callbacks for the examples: three pages of queue URLs and of functions,
  a callback that counts its invocations and answers \<open>false\<close> at the second one, and a
  fetch that answers every URL with an empty attribute map.\<close>

definition threeQueuePages :: "string listAPI" where
  "threeQueuePages token =
     (case token of
        None \<Rightarrow> Inr \<lparr>Items = [''https://sqs/1/b'', ''https://sqs/1/A''], NextToken = Some ''t1''\<rparr>
      | Some t \<Rightarrow>
          if t = ''t1'' then Inr \<lparr>Items = [''https://sqs/1/c''], NextToken = Some ''t2''\<rparr>
          else if t = ''t2'' then Inr \<lparr>Items = [''https://sqs/1/d''], NextToken = None\<rparr>
          else Inl (ServiceError ''invalid token''))"

definition threeFunctionPages :: "FunctionConfiguration listAPI" where
  "threeFunctionPages token =
     (case token of
        None \<Rightarrow>
          Inr \<lparr>Items = [\<lparr>FunctionName = Some ''f1'', Runtime = ''go1.x'', State = ''Active''\<rparr>],
               NextToken = Some ''m1''\<rparr>
      | Some t \<Rightarrow>
          if t = ''m1'' then
            Inr \<lparr>Items = [\<lparr>FunctionName = Some ''f2'', Runtime = ''go1.x'', State = ''Pending''\<rparr>],
                 NextToken = Some ''m2''\<rparr>
          else if t = ''m2'' then Inr \<lparr>Items = [], NextToken = None\<rparr>
          else Inl (ServiceError ''invalid marker''))"

definition stopAtSecond :: "('a, nat) callback" where
  "stopAtSecond k batch hasMore = (k = 0, Suc k)"

definition plainFetch :: "string list \<Rightarrow> Queue list" where
  "plainFetch urls = map (\<lambda>u. convertQueueAttributes u []) urls"

section \<open>Listing all queues at once\<close>

text \<open>
  \<open>ListQueues\<close> first collects the URLs of all pages (an error of a page ends the function
  with that error), returns nothing when there is no URL, and otherwise fetches, collects,
  filters and sorts exactly as \<open>fetchQueueAttributesBatch\<close> does. The first loop runs as
  long as the service hands out tokens; \<open>None\<close> says that it has not ended within the
  given number of pages.
\<close>

fun collectQueueURLs ::
  "nat \<Rightarrow> string listAPI \<Rightarrow> paginator \<Rightarrow> string list \<Rightarrow> (error + string list) option" where
  "collectQueueURLs 0 api p queueURLs = (if HasMorePages p then None else Some (Inr queueURLs))"
| "collectQueueURLs (Suc n) api p queueURLs =
     (if HasMorePages p then
        case NextPage api p of
          (Inl e, p') \<Rightarrow> Some (Inl (Wrapped ''failed to list queues'' e))
        | (Inr pg, p') \<Rightarrow> collectQueueURLs n api p' (queueURLs @ Items pg)
      else Some (Inr queueURLs))"

definition ListQueues ::
  "nat \<Rightarrow> ((Queue \<Rightarrow> Queue \<Rightarrow> bool) \<Rightarrow> Queue list \<Rightarrow> Queue list) \<Rightarrow> sqsAPI \<Rightarrow> nat list
     \<Rightarrow> string listAPI \<Rightarrow> ((error + Queue list) \<times> logLine list) option" where
  "ListQueues n sortSlice sqs arrival api =
     (case collectQueueURLs n api NewPaginator [] of
        None \<Rightarrow> None
      | Some (Inl e) \<Rightarrow> Some (Inl e, [])
      | Some (Inr queueURLs) \<Rightarrow>
          if length queueURLs = 0 then Some (Inr [], [Info ''No SQS queues found'' []])
          else
            let results = channelContents sqs arrival queueURLs;
                (queues, validCount, lg) =
                   collectResults results (replicate (length queueURLs) zeroQueue, 0, []);
                sorted_queues = sortSlice lessByLowerName (validQueues queues)
            in Some (Inr sorted_queues,
                     lg @ [Info ''Found %d SQS queues'' [length sorted_queues]]))"

text \<open>
  Sorts and pages for the examples. \<open>goSort\<close> is the model of \<open>sort.Slice\<close> above, made total
  by leaving the list as it is where the model has no answer. \<open>allFound\<close> answers every URL
  with an empty attribute map. \<open>thirteenURLs\<close> is a page of thirteen queues whose first two
  names differ only in case.
\<close>

definition goSort :: "('a \<Rightarrow> 'a \<Rightarrow> bool) \<Rightarrow> 'a list \<Rightarrow> 'a list" where
  "goSort lt xs = (case sort_Slice lt xs of Some ys \<Rightarrow> ys | None \<Rightarrow> xs)"

definition allFound :: sqsAPI where
  "allFound url = Inr []"

definition thirteenURLs :: "string list" where
  "thirteenURLs =
     [''https://sqs/1/E'', ''https://sqs/1/e'', ''https://sqs/1/b'', ''https://sqs/1/c'',
      ''https://sqs/1/d'', ''https://sqs/1/f'', ''https://sqs/1/g'', ''https://sqs/1/h'',
      ''https://sqs/1/i'', ''https://sqs/1/j'', ''https://sqs/1/k'', ''https://sqs/1/l'',
      ''https://sqs/1/a'']"

text \<open>A page whose first URL is empty, and a service that answers the empty URL and fails
  on every other one.\<close>

definition emptyURLPage :: "string list" where
  "emptyURLPage = [[], ''https://sqs/1/jobs'']"

definition onlyEmptyFound :: sqsAPI where
  "onlyEmptyFound url = (if url = [] then Inr [] else Inl (ServiceError ''queue does not exist''))"

text \<open>A page whose second URL is empty, and a service that answers every URL but the
  empty one.\<close>

definition pageWithEmptyURL :: "string list" where
  "pageWithEmptyURL = [''https://sqs/1/beta'', [], ''https://sqs/1/Alpha'']"

definition emptyRejected :: sqsAPI where
  "emptyRejected url = (if url = [] then Inl (ServiceError ''invalid queue URL'') else Inr [])"

text \<open>A page of three queues and a service for which the second one has just been
  deleted.\<close>

definition threeURLs :: "string list" where
  "threeURLs = [''https://sqs/1/beta'', ''https://sqs/1/gone'', ''https://sqs/1/Alpha'']"

definition secondGone :: sqsAPI where
  "secondGone url =
     (if url = ''https://sqs/1/gone'' then Inl (ServiceError ''queue does not exist'') else Inr [])"

text \<open>
  For the proofs about the insertion sort: putting \<open>x\<close> into a list that descends (the
  sorted part of the slice read from right to left), before the first element that \<open>x\<close>
  is not less than. \<open>smallSort\<close> is \<open>insertionSort_func\<close> on a whole slice, which is all that
  \<open>sort.Slice\<close> runs on a slice of at most twelve elements.
\<close>

fun putDescending :: "('a \<Rightarrow> 'a \<Rightarrow> bool) \<Rightarrow> 'a \<Rightarrow> 'a list \<Rightarrow> 'a list" where
  "putDescending lt x [] = [x]"
| "putDescending lt x (y # ys) = (if lt x y then y # putDescending lt x ys else x # y # ys)"

definition smallSort :: "('a \<Rightarrow> 'a \<Rightarrow> bool) \<Rightarrow> 'a list \<Rightarrow> 'a list" where
  "smallSort lt xs = insertionSort_func lt xs 0 (length xs)"

section \<open>The fan-out of the detail fetches as a transition system\<close>

text \<open>
  \<open>fetchQueueAttributesBatch\<close> and \<open>ListQueues\<close> start one goroutine for each URL. Each
  goroutine sends a token into the channel \<open>sem\<close>, whose buffer holds
  \<open>maxConcurrentSQSCalls\<close> tokens (the send blocks while the buffer is full), calls
  \<open>GetQueueAttributes\<close>, sends the outcome on \<open>results\<close> (whose buffer has room for every
  goroutine, so this send never blocks), and on its way out takes a token back from
  \<open>sem\<close>. The goroutines interleave in any order; a state holds the place each goroutine
  is at, the number of tokens in \<open>sem\<close>, and the indices sent on \<open>results\<close> so far.
\<close>

definition maxConcurrentSQSCalls :: nat where
  "maxConcurrentSQSCalls = 10"

datatype place = BeforeAcquire | Fetching | Sending | Releasing | Finished

record fanout =
  places :: "place list"
  sem :: nat
  results :: "nat list"

definition spawned :: "string list \<Rightarrow> fanout" where
  "spawned queueURLs =
     \<lparr>places = replicate (length queueURLs) BeforeAcquire, sem = 0, results = []\<rparr>"

inductive step :: "fanout \<Rightarrow> fanout \<Rightarrow> bool" where
  acquire:
    "idx < length (places s) \<Longrightarrow> places s ! idx = BeforeAcquire \<Longrightarrow> sem s < maxConcurrentSQSCalls \<Longrightarrow>
     step s (s\<lparr>places := (places s)[idx := Fetching], sem := sem s + 1\<rparr>)"
| fetched:
    "idx < length (places s) \<Longrightarrow> places s ! idx = Fetching \<Longrightarrow>
     step s (s\<lparr>places := (places s)[idx := Sending]\<rparr>)"
| sent:
    "idx < length (places s) \<Longrightarrow> places s ! idx = Sending \<Longrightarrow>
     step s (s\<lparr>places := (places s)[idx := Releasing], results := results s @ [idx]\<rparr>)"
| released:
    "idx < length (places s) \<Longrightarrow> places s ! idx = Releasing \<Longrightarrow>
     step s (s\<lparr>places := (places s)[idx := Finished], sem := sem s - 1\<rparr>)"

text \<open>The fetches in flight are the goroutines inside \<open>GetQueueAttributes\<close>; the goroutines
  that hold a token are those between the send into \<open>sem\<close> and the receive from it.\<close>

definition inFlight :: "fanout \<Rightarrow> nat" where
  "inFlight s = length (filter (\<lambda>p. p = Fetching) (places s))"

fun holdsToken :: "place \<Rightarrow> bool" where
  "holdsToken Fetching = True"
| "holdsToken Sending = True"
| "holdsToken Releasing = True"
| "holdsToken BeforeAcquire = False"
| "holdsToken Finished = False"

definition holding :: "fanout \<Rightarrow> nat" where
  "holding s = length (filter holdsToken (places s))"

text \<open>A goroutine has sent its outcome on \<open>results\<close> when it is at the receive from \<open>sem\<close> or
  has finished.\<close>

definition leftFetch :: "place \<Rightarrow> bool" where
  "leftFetch p \<longleftrightarrow> p = Releasing \<or> p = Finished"

text \<open>The state in which the first \<open>k\<close> of \<open>n\<close> goroutines are fetching and the others
  still wait for a token.\<close>

definition firstFetching :: "nat \<Rightarrow> nat \<Rightarrow> fanout" where
  "firstFetching k n =
     \<lparr>places = replicate k Fetching @ replicate (n - k) BeforeAcquire, sem = k, results = []\<rparr>"

section \<open>Properties of the queue name\<close>

lemma Split_from_nonempty: "Split_from sep cur s \<noteq> []"
  by (induction s arbitrary: cur) auto

lemma takeWhile_notin:
  "sep \<notin> set xs \<Longrightarrow> takeWhile (\<lambda>c. c \<noteq> sep) (xs @ ys) = xs @ takeWhile (\<lambda>c. c \<noteq> sep) ys"
  by (induction xs) auto

lemma takeWhile_in:
  "sep \<in> set xs \<Longrightarrow> takeWhile (\<lambda>c. c \<noteq> sep) (xs @ ys) = takeWhile (\<lambda>c. c \<noteq> sep) xs"
  by (induction xs) auto

lemma last_Split_from:
  "last (Split_from sep cur s) =
     (if sep \<in> set s then rev (takeWhile (\<lambda>c. c \<noteq> sep) (rev s)) else cur @ s)"
proof (induction s arbitrary: cur)
  case Nil
  show ?case by simp
next
  case (Cons c cs)
  show ?case
  proof (cases "c = sep")
    case True
    have "last (Split_from sep cur (c # cs)) = last (Split_from sep [] cs)"
      using True by (simp add: Split_from_nonempty)
    also have "\<dots> = (if sep \<in> set cs then rev (takeWhile (\<lambda>c. c \<noteq> sep) (rev cs)) else cs)"
      by (simp add: Cons.IH)
    also have "\<dots> = rev (takeWhile (\<lambda>c. c \<noteq> sep) (rev (c # cs)))"
      using True by (simp add: takeWhile_notin takeWhile_in)
    finally show ?thesis using True by simp
  next
    case False
    then show ?thesis
      by (simp add: Cons.IH takeWhile_notin takeWhile_in)
  qed
qed

lemma afterLast_notin:
  assumes "sep \<notin> set s"
  shows "rev (takeWhile (\<lambda>c. c \<noteq> sep) (rev s)) = s"
proof -
  have "takeWhile (\<lambda>c. c \<noteq> sep) (rev s) = rev s"
    using assms by (subst takeWhile_eq_all_conv) auto
  then show ?thesis by (simp only: rev_rev_ident)
qed

lemma last_Split: "last (Split s sep) = rev (takeWhile (\<lambda>c. c \<noteq> sep) (rev s))"
proof (cases "sep \<in> set s")
  case True
  then show ?thesis by (simp add: Split_def last_Split_from)
next
  case False
  have "last (Split s sep) = s"
    using False by (simp add: Split_def last_Split_from)
  then show ?thesis
    using afterLast_notin [OF False] by (rule trans [OF _ sym])
qed

text \<open>
  Claim C9. The two copies of \<open>extractQueueNameFromURL\<close> (the one of the UI in loaders.go and
  the one of the SQS client) compute the same function on every input; that function returns
  the substring after the last \<open>/\<close> (the whole string when there is none); and the branch
  that returns the input unchanged is never taken, because \<open>strings.Split\<close> always yields
  at least one part.
\<close>

theorem extractQueueNameFromURL_copies_agree:
  "extractQueueNameFromURL_ui url = extractQueueNameFromURL_aws url \<and>
   extractQueueNameFromURL_aws url = afterLastSlash url \<and>
   0 < length (Split url (CHR ''/''))"
  using Split_from_nonempty [of "CHR ''/''" "[]" url]
  by (simp add: extractQueueNameFromURL_ui_def extractQueueNameFromURL_aws_def
      afterLastSlash_def Let_def last_Split [symmetric] last_conv_nth Split_def)

section \<open>The cursor of the region selector stays visible\<close>

lemma length_flattenRegions: "length flattenRegions = 18"
  by (simp add: flattenRegions_def AWSRegions_def)

lemma visibleInt_ge1: "1 \<le> visibleInt r"
  by (simp add: visibleInt_def visibleCount_def gmax_def word_sless_alt)

lemma visibleInt_lt: "visibleInt r < 2 ^ 63"
  using sint_lt [of "visibleCount r"] by (simp add: visibleInt_def)

lemma sint_add_exact:
  fixes a b :: gint
  assumes "- (2^63) \<le> sint a + sint b" "sint a + sint b < 2^63"
  shows "sint (a + b) = sint a + sint b"
  using assms by (simp add: sint_word_ariths signed_take_bit_int_eq_self)

lemma sint_sub_exact:
  fixes a b :: gint
  assumes "- (2^63) \<le> sint a - sint b" "sint a - sint b < 2^63"
  shows "sint (a - b) = sint a - sint b"
  using assms by (simp add: sint_word_ariths signed_take_bit_int_eq_self)

lemma visibleInt_clamp [simp]: "visibleInt (r\<lparr>offset := x\<rparr>) = visibleInt r" "visibleInt (r\<lparr>cursor := y\<rparr>) = visibleInt r"
  "visibleInt (r\<lparr>currentRegion := z\<rparr>) = visibleInt r"
  by (simp_all add: visibleInt_def visibleCount_def)

lemma clampOffset_clamps:
  assumes fr: "flatRegions r = flattenRegions"
    and c0: "0 \<le> sint (cursor r)" and c18: "sint (cursor r) < 18"
    and o0: "0 \<le> sint (offset r)" and o17: "sint (offset r) \<le> 17"
    and nov: "sint (offset r) + visibleInt r < 2^63"
  shows "clampedState (clampOffset r) \<and> height (clampOffset r) = height r \<and> cursor (clampOffset r) = cursor r"
proof -
  define v where "v = visibleCount r"
  have Vv: "sint v = visibleInt r" by (simp add: v_def visibleInt_def)
  have V1: "1 \<le> visibleInt r" by (rule visibleInt_ge1)
  have V2: "visibleInt r < 2^63" by (rule visibleInt_lt)
  have ov: "sint (offset r + v) = sint (offset r) + visibleInt r"
    using o0 nov V1 V2 by (subst sint_add_exact) (auto simp: Vv)
  have cv: "sint (cursor r - v) = sint (cursor r) - visibleInt r"
    using c0 c18 V1 V2 by (subst sint_sub_exact) (auto simp: Vv)
  have cv1: "sint (cursor r - v + 1) = sint (cursor r) - visibleInt r + 1"
    using c0 c18 V1 V2 cv by (subst sint_add_exact) (auto simp: Vv)
  have len: "len_flatRegions r = 18"
    by (simp add: len_flatRegions_def fr length_flattenRegions)
  have lv: "sint (18 - v) = 18 - visibleInt r"
    using V1 V2 by (subst sint_sub_exact) (auto simp: Vv)
  show ?thesis
    using c0 c18 o0 o17 nov V1 V2
    by (auto simp: clampOffset_def Let_def v_def [symmetric] len len_flatRegions_def fr
        length_flattenRegions clampedState_def gmax_def gmin_def word_sless_alt word_sle_eq ov cv cv1 lv
        visibleInt_def [symmetric] visibleCount_def [symmetric] max_def split: if_splits)
qed

lemma clamped_windowState: "clampedState r \<Longrightarrow> windowState r"
  using visibleInt_lt [of r] by (auto simp: clampedState_def windowState_def max_def split: if_splits)

lemma windowState_cursorVisible: assumes "windowState r" shows "cursorVisible r"
proof -
  have ov: "sint (offset r + visibleCount r) = sint (offset r) + visibleInt r"
    using assms visibleInt_ge1 [of r] by (subst sint_add_exact) (auto simp: windowState_def visibleInt_def)
  show ?thesis
    using assms
    by (simp add: cursorVisible_def windowState_def word_sless_alt word_sle_eq ov len_flatRegions_def
        length_flattenRegions)
qed

lemma cursorVisible_windowState:
  assumes cv: "cursorVisible r" and fr: "flatRegions r = flattenRegions"
  shows "windowState r"
proof -
  define w where "w = offset r + visibleCount r"
  have o0: "0 \<le> sint (offset r)" and oc: "sint (offset r) \<le> sint (cursor r)"
    and c18: "sint (cursor r) < 18" and cw: "sint (cursor r) < sint w"
    using cv by (simp_all add: cursorVisible_def word_sless_alt word_sle_eq w_def
        len_flatRegions_def fr length_flattenRegions)
  have "visibleCount r = w - offset r" by (simp add: w_def)
  then have "visibleInt r = sint (w - offset r)" by (simp add: visibleInt_def)
  also have "\<dots> = sint w - sint (offset r)"
    using o0 oc c18 cw sint_lt [of w] by (subst sint_sub_exact) auto
  finally have "sint (offset r) + visibleInt r = sint w" by simp
  then show ?thesis
    using o0 oc c18 cw fr sint_lt [of w] by (simp add: windowState_def)
qed

lemma windowState_Up: assumes "windowState r" shows "windowState (Up r) \<and> height (Up r) = height r"
proof (cases "0 <s cursor r")
  case False
  then show ?thesis using assms by (simp add: Up_def)
next
  case True
  then have pos: "0 < sint (cursor r)" by (simp add: word_sless_alt)
  have c1: "sint (cursor r - 1) = sint (cursor r) - 1"
    using assms pos by (subst sint_sub_exact) (auto simp: windowState_def)
  let ?r = "r\<lparr>cursor := cursor r - 1\<rparr>"
  have "clampedState (clampOffset ?r) \<and> height (clampOffset ?r) = height ?r \<and> cursor (clampOffset ?r) = cursor ?r"
    using assms pos c1 by (intro clampOffset_clamps) (auto simp: windowState_def)
  then show ?thesis using True by (simp add: Up_def clamped_windowState)
qed

lemma windowState_Down: assumes "windowState r" shows "windowState (Down r) \<and> height (Down r) = height r"
proof (cases "cursor r <s len_flatRegions r - 1")
  case False
  then show ?thesis using assms by (simp add: Down_def)
next
  case True
  have len: "len_flatRegions r = 18"
    using assms by (simp add: len_flatRegions_def windowState_def length_flattenRegions)
  from True have lt: "sint (cursor r) < 17" by (simp add: word_sless_alt len)
  have c1: "sint (cursor r + 1) = sint (cursor r) + 1"
    using assms lt by (subst sint_add_exact) (auto simp: windowState_def)
  let ?r = "r\<lparr>cursor := cursor r + 1\<rparr>"
  have "clampedState (clampOffset ?r) \<and> height (clampOffset ?r) = height ?r \<and> cursor (clampOffset ?r) = cursor ?r"
    using assms lt c1 by (intro clampOffset_clamps) (auto simp: windowState_def)
  then show ?thesis using True by (simp add: Down_def clamped_windowState)
qed

lemma firstRegionIndex_bounds:
  "firstRegionIndex regs region i = Some k \<Longrightarrow> i \<le> k \<and> k < i + length regs"
  by (induction regs arbitrary: i) (fastforce split: if_splits)+

lemma windowState_SetCurrentRegion:
  assumes "windowState r"
  shows "windowState (SetCurrentRegion region r) \<and> height (SetCurrentRegion region r) = height r"
proof (cases "firstRegionIndex (flatRegions r) region 0")
  case None
  then show ?thesis using assms by (simp add: SetCurrentRegion_def windowState_def)
next
  case (Some k)
  have fr: "flatRegions r = flattenRegions" using assms by (simp add: windowState_def)
  have k18: "k < 18"
    using firstRegionIndex_bounds [OF Some] by (simp add: fr length_flattenRegions)
  have sk: "sint (of_nat k :: gint) = int k"
    using k18 by (simp add: signed_of_nat signed_take_bit_int_eq_self)
  let ?r = "r\<lparr>currentRegion := region, cursor := of_nat k\<rparr>"
  have "clampedState (clampOffset ?r) \<and> height (clampOffset ?r) = height ?r \<and> cursor (clampOffset ?r) = cursor ?r"
    using assms k18 sk by (intro clampOffset_clamps) (auto simp: windowState_def)
  then show ?thesis using Some by (simp add: SetCurrentRegion_def clamped_windowState)
qed

lemma windowState_init: "windowState (SetSize w h NewRegionSelector)"
  using visibleInt_ge1 [of "SetSize w h NewRegionSelector"] visibleInt_lt [of "SetSize w h NewRegionSelector"]
  by (simp add: windowState_def SetSize_def NewRegionSelector_def)

lemma windowState_applyOp: "windowState r \<Longrightarrow> windowState (applyOp r op) \<and> height (applyOp r op) = height r"
  by (cases op) (simp_all add: windowState_Up windowState_Down windowState_SetCurrentRegion)

lemma windowState_runOps: "windowState r \<Longrightarrow> windowState (runOps ops r)"
  unfolding runOps_def by (induction ops arbitrary: r) (simp_all add: windowState_applyOp)

text \<open>
  Claim C10. For a region selector over the built-in region list and with a fixed size, the
  cursor stays within bounds and within the visible window:
  \<open>0 \<le> offset \<le> cursor < len(flatRegions)\<close> and \<open>cursor < offset + visibleCount()\<close>.
  The invariant holds in the initial state (cursor 0, offset 0) for every size; each of
  \<open>Up\<close>, \<open>Down\<close> and \<open>SetCurrentRegion\<close> preserves it (and leaves the region list and the
  height as they are); hence it holds after every sequence of these operations.
\<close>

theorem cursor_stays_visible:
  "cursorVisible (SetSize w h NewRegionSelector) \<and>
   (cursorVisible r \<and> flatRegions r = flattenRegions \<longrightarrow>
      cursorVisible (applyOp r op) \<and> flatRegions (applyOp r op) = flattenRegions \<and>
      height (applyOp r op) = height r) \<and>
   cursorVisible (runOps ops (SetSize w h NewRegionSelector))"
proof (intro conjI impI)
  show "cursorVisible (SetSize w h NewRegionSelector)"
    by (rule windowState_cursorVisible [OF windowState_init])
  show "cursorVisible (runOps ops (SetSize w h NewRegionSelector))"
    by (rule windowState_cursorVisible [OF windowState_runOps [OF windowState_init]])
next
  assume a: "cursorVisible r \<and> flatRegions r = flattenRegions"
  then have "windowState r" by (simp add: cursorVisible_windowState)
  then have b: "windowState (applyOp r op) \<and> height (applyOp r op) = height r" by (rule windowState_applyOp)
  then show "cursorVisible (applyOp r op)" by (simp add: windowState_cursorVisible)
  from b show "flatRegions (applyOp r op) = flattenRegions" by (simp add: windowState_def)
  from b show "height (applyOp r op) = height r" by simp
qed

lemma selector_run_example:
  "cursor (runOps [OpDown, OpDown, OpDown, OpDown, OpDown, OpSetCurrentRegion ''af-south-1'', OpUp]
     (SetSize 80 10 NewRegionSelector)) = 16 \<and>
   offset (runOps [OpDown, OpDown, OpDown, OpDown, OpDown, OpSetCurrentRegion ''af-south-1'', OpUp]
     (SetSize 80 10 NewRegionSelector)) = 14"
  by code_simp

lemma selector_hyp_example:
  "cursorVisible (SetSize 80 10 NewRegionSelector) \<and>
   flatRegions (SetSize 80 10 NewRegionSelector) = flattenRegions"
  by code_simp

theorem cursor_stays_visible_witness:
  "cursorVisible (SetSize 80 10 NewRegionSelector) \<and>
   flatRegions (SetSize 80 10 NewRegionSelector) = flattenRegions \<and>
   cursorVisible (applyOp (SetSize 80 10 NewRegionSelector) OpDown) \<and>
   cursorVisible (runOps [OpDown, OpDown, OpDown, OpDown, OpDown, OpSetCurrentRegion ''af-south-1'', OpUp]
     (SetSize 80 10 NewRegionSelector))"
  using cursor_stays_visible [of 80 10 "SetSize 80 10 NewRegionSelector" OpDown
      "[OpDown, OpDown, OpDown, OpDown, OpDown, OpSetCurrentRegion ''af-south-1'', OpUp]"]
    selector_hyp_example
  by blast

section \<open>Properties of the tunnel commands\<close>

lemma isPrivate_iff: "isPrivate a \<longleftrightarrow> (\<exists>r. a = RestAPIPtr r \<and> EndpointType r = ''PRIVATE'')"
  by (cases a) auto

text \<open>
  Claim C6. For every API Gateway target that is not private (every HTTP API, every REST API
  whose endpoint type is not \<open>"PRIVATE"\<close>), \<open>startAPIGatewayTunnel\<close> does not enter the jump
  host path: the state is left as it was (no pending tunnel request, no jump-host selection
  view, no loading of EC2 instances), the only command returned is the public proxy start,
  and the only call that command makes is \<open>StartPublicTunnel\<close>.
\<close>

theorem public_target_skips_jump_host:
  assumes "\<not> isPrivate a"
  shows "startAPIGatewayTunnel m a stage localPort =
           (logger_Info (''Starting public API Gateway proxy for stage: '' @ StageName stage) m,
            [startPublicAPIGWTunnel a stage localPort]) \<and>
         state (fst (startAPIGatewayTunnel m a stage localPort)) = state m \<and>
         ec2List_loading (fst (startAPIGatewayTunnel m a stage localPort)) = ec2List_loading m \<and>
         concat (map (\<lambda>cmd. snd (cmd env)) (snd (startAPIGatewayTunnel m a stage localPort))) =
           [Call_StartPublicTunnel (WithTimeout 30)]"
  using assms
  by (simp add: startAPIGatewayTunnel_def logger_Info_def startPublicAPIGWTunnel_def Let_def
      split: prod.splits)

theorem public_target_skips_jump_host_witness:
  "\<not> isPrivate regionalAPI \<and> \<not> isPrivate (HttpAPIPtr \<lparr>HttpAPI_ID = ''h1''\<rparr>) \<and>
   state (fst (startAPIGatewayTunnel idleModel regionalAPI prodStage 8080)) = state idleModel \<and>
   concat (map (\<lambda>cmd. snd (cmd slowEnv)) (snd (startAPIGatewayTunnel idleModel regionalAPI prodStage 8080))) =
      [Call_StartPublicTunnel (WithTimeout 30)] \<and>
   concat (map (\<lambda>cmd. snd (cmd slowEnv)) (snd (startAPIGatewayTunnel idleModel privateAPI prodStage 8080))) =
      [Call_ListSSMManagedInstances (WithTimeout 30)] \<and>
   PendingTunnelStage (state (fst (startAPIGatewayTunnel idleModel privateAPI prodStage 8080))) = Some prodStage"
proof -
  have np: "\<not> isPrivate regionalAPI" by (simp add: regionalAPI_def)
  have priv: "isPrivate privateAPI" by (simp add: privateAPI_def)
  show ?thesis
    using public_target_skips_jump_host [OF np, of idleModel prodStage 8080 slowEnv] np priv
    by (simp add: startAPIGatewayTunnel_def loadEC2Instances_def Let_def logger_Info_def
        spinnerTickCmd_def listInstancesCmd_def split: prod.splits)
qed















text \<open>
  Claim C8. When the resolver has returned a jump host, \<open>findJumpHostForAPIGateway\<close> answers
  with a message that carries that jump host and no error, whatever the lookup of the VPC
  endpoint returned and also when the jump host has no VPC: the endpoint and the error of
  its lookup are only carried along in the message.
\<close>


theorem endpoint_lookup_failure_keeps_jump_host:
  assumes "FindJumpHost env (WithTimeout 60) [] (jumpHostConfig m) (jumpHostTagConfig m)
             (defaultTags m) (defaultNames m) = (Some jh, None)"
  shows "fst (findJumpHostForAPIGateway m a stage localPort env) =
     Some (jumpHostFoundMsg
       \<lparr>jumpHost = Some jh,
        vpcEndpoint =
          (if VpcID jh \<noteq> [] then fst (FindAPIGatewayVpcEndpoint env (WithTimeout 60) (VpcID jh))
           else None),
        vpcEndpointErr =
          (if VpcID jh \<noteq> [] then snd (FindAPIGatewayVpcEndpoint env (WithTimeout 60) (VpcID jh))
           else None),
        found_stage = stage, found_api = a, found_localPort = localPort, found_err = None\<rparr>)"
  using assms
  by (simp add: findJumpHostForAPIGateway_def Let_def split: prod.splits)

theorem endpoint_lookup_failure_keeps_jump_host_witness:
  "FindJumpHost slowEnv (WithTimeout 60) [] (jumpHostConfig idleModel) (jumpHostTagConfig idleModel)
     (defaultTags idleModel) (defaultNames idleModel) = (Some bastion, None) \<and>
   FindAPIGatewayVpcEndpoint slowEnv (WithTimeout 60) (VpcID bastion) =
     (None, Some (ServiceError ''no endpoint'')) \<and>
   fst (findJumpHostForAPIGateway idleModel privateAPI prodStage 8080 slowEnv) =
     Some (jumpHostFoundMsg
       \<lparr>jumpHost = Some bastion, vpcEndpoint = None,
        vpcEndpointErr = Some (ServiceError ''no endpoint''),
        found_stage = prodStage, found_api = privateAPI, found_localPort = 8080,
        found_err = None\<rparr>)"
proof -
  have h: "FindJumpHost slowEnv (WithTimeout 60) [] (jumpHostConfig idleModel)
      (jumpHostTagConfig idleModel) (defaultTags idleModel) (defaultNames idleModel) =
      (Some bastion, None)"
    by (simp add: slowEnv_def)
  have e: "FindAPIGatewayVpcEndpoint slowEnv (WithTimeout 60) (VpcID bastion) =
     (None, Some (ServiceError ''no endpoint''))"
    by (simp add: slowEnv_def)
  have v: "VpcID bastion \<noteq> []" by (simp add: bastion_def)
  show ?thesis
    using endpoint_lookup_failure_keeps_jump_host [OF h, of privateAPI prodStage 8080] h e v
    by simp
qed

section \<open>Properties of a batch of queues\<close>

lemma collectResults_length:
  "length (fst (collectResults rs (qs, vc, lg))) = length qs"
  by (induction rs arbitrary: qs vc lg) (auto split: sum.splits)

lemma collectResults_nth:
  assumes "k < length qs"
  shows "fst (collectResults (channelContents sqs arrival urls) (qs, vc, lg)) ! k =
     (if k \<in> set arrival then
        (case GetQueueAttributes sqs (urls ! k) of Inl e \<Rightarrow> qs ! k | Inr q \<Rightarrow> q)
      else qs ! k)"
  using assms
proof (induction arrival arbitrary: qs vc lg)
  case Nil
  then show ?case by (simp add: channelContents_def)
next
  case (Cons i arrival)
  show ?case
  proof (cases "GetQueueAttributes sqs (urls ! i)")
    case (Inl e)
    then show ?thesis
      using Cons.IH [OF Cons.prems, of vc "lg @ [Warn ''Failed to get attributes for queue: %v'' e]"]
      by (auto simp: channelContents_def goroutineResult_def split: sum.splits)
  next
    case (Inr q)
    have len: "k < length (qs[i := q])" using Cons.prems by simp
    have step: "fst (collectResults (channelContents sqs (i # arrival) urls) (qs, vc, lg)) ! k =
        (if k \<in> set arrival then
           (case GetQueueAttributes sqs (urls ! k) of Inl e \<Rightarrow> qs[i := q] ! k | Inr q \<Rightarrow> q)
         else qs[i := q] ! k)"
      using Cons.IH [OF len, of "vc + 1" lg] Inr
      by (simp add: channelContents_def goroutineResult_def)
    show ?thesis
    proof (cases "i = k")
      case True
      then show ?thesis using step Inr Cons.prems by (simp split: sum.splits)
    next
      case False
      then show ?thesis using step by (simp split: sum.splits)
    qed
  qed
qed

lemma collectResults_log:
  "snd (snd (collectResults (channelContents sqs arrival urls) (qs, vc, lg))) =
     lg @ map (Warn ''Failed to get attributes for queue: %v'') (fetchErrors sqs arrival urls)"
proof (induction arrival arbitrary: qs vc lg)
  case Nil
  then show ?case by (simp add: channelContents_def fetchErrors_def)
next
  case (Cons i arrival)
  show ?case
  proof (cases "GetQueueAttributes sqs (urls ! i)")
    case (Inl e)
    then show ?thesis
      using Cons.IH [of qs vc "lg @ [Warn ''Failed to get attributes for queue: %v'' e]"]
      by (simp add: channelContents_def goroutineResult_def fetchErrors_def)
  next
    case (Inr q)
    then show ?thesis
      using Cons.IH [of "qs[i := q]" "vc + 1" lg]
      by (simp add: channelContents_def goroutineResult_def fetchErrors_def)
  qed
qed

lemma collected_slots:
  assumes "set arrival = {0..<length urls}"
  shows "fst (collectResults (channelContents sqs arrival urls)
            (replicate (length urls) zeroQueue, 0, [])) = map (slot sqs) urls"
proof (rule nth_equalityI)
  show "length (fst (collectResults (channelContents sqs arrival urls)
            (replicate (length urls) zeroQueue, 0, []))) = length (map (slot sqs) urls)"
    by (simp add: collectResults_length)
next
  fix k
  assume "k < length (fst (collectResults (channelContents sqs arrival urls)
            (replicate (length urls) zeroQueue, 0, [])))"
  then have k: "k < length urls" by (simp add: collectResults_length)
  then show "fst (collectResults (channelContents sqs arrival urls)
            (replicate (length urls) zeroQueue, 0, [])) ! k = map (slot sqs) urls ! k"
    using assms by (simp add: collectResults_nth slot_def split: sum.splits)
qed

lemma validQueues_slots:
  "validQueues (map (slot sqs) urls) = validQueues (fetchedQueues sqs urls)"
  by (induction urls)
    (auto simp: validQueues_def fetchedQueues_def slot_def zeroQueue_def split: sum.splits)

lemma fetched_from:
  "q \<in> set (fetchedQueues sqs urls) \<longleftrightarrow> (\<exists>u \<in> set urls. GetQueueAttributes sqs u = Inr q)"
  by (induction urls) (auto simp: fetchedQueues_def split: sum.splits)

lemma fetched_has_URL: "GetQueueAttributes sqs u = Inr q \<Longrightarrow> URL q = u"
  by (cases "sqs u") (auto simp: GetQueueAttributes_def convertQueueAttributes_def Let_def)

lemma fetched_URL:
  "q \<in> set (fetchedQueues sqs urls) \<Longrightarrow> URL q \<in> set urls"
  by (auto simp: fetched_from fetched_has_URL)

lemma fetched_answered: "GetQueueAttributes sqs u = Inr q \<Longrightarrow> \<exists>attrs. sqs u = Inr attrs"
  by (cases "sqs u") (auto simp: GetQueueAttributes_def)

lemma validQueues_fetched:
  assumes "[] \<in> set urls \<longrightarrow> (\<forall>attrs. sqs [] \<noteq> Inr attrs)"
  shows "validQueues (fetchedQueues sqs urls) = fetchedQueues sqs urls"
  unfolding validQueues_def
proof (rule filter_True, rule ballI)
  fix q assume "q \<in> set (fetchedQueues sqs urls)"
  then obtain u where u: "u \<in> set urls" "GetQueueAttributes sqs u = Inr q"
    by (auto simp: fetched_from)
  from u(2) have url: "URL q = u" by (rule fetched_has_URL)
  from u(2) obtain attrs where "sqs u = Inr attrs" using fetched_answered by blast
  with u(1) assms have "u \<noteq> []" by auto
  with url show "URL q \<noteq> []" by simp
qed

lemma batch_is_sorted_fetched:
  assumes "set arrival = {0..<length urls}"
  shows "fst (fetchQueueAttributesBatch sortSlice sqs arrival urls) =
     sortSlice lessByLowerName (validQueues (fetchedQueues sqs urls))"
proof -
  obtain queues validCount lg where c:
    "collectResults (channelContents sqs arrival urls) (replicate (length urls) zeroQueue, 0, [])
       = (queues, validCount, lg)" by (metis prod_cases3)
  have "queues = map (slot sqs) urls"
    using collected_slots [OF assms, of sqs] c by simp
  then show ?thesis
    by (simp add: fetchQueueAttributesBatch_def Let_def c validQueues_slots)
qed

lemma batch_log:
  "snd (fetchQueueAttributesBatch sortSlice sqs arrival urls) =
     map (Warn ''Failed to get attributes for queue: %v'') (fetchErrors sqs arrival urls)"
proof -
  obtain queues validCount lg where c:
    "collectResults (channelContents sqs arrival urls) (replicate (length urls) zeroQueue, 0, [])
       = (queues, validCount, lg)" by (metis prod_cases3)
  show ?thesis
    using collectResults_log [of sqs arrival urls "replicate (length urls) zeroQueue" 0 "[]"]
    by (simp add: fetchQueueAttributesBatch_def Let_def c)
qed

lemma contract_sorted:
  assumes "meetsSortContract sortSlice lessByLowerName"
  shows "sorted (map (\<lambda>q. ToLower (Name q)) (sortSlice lessByLowerName xs))"
proof -
  have "sorted_wrt (\<lambda>a b. \<not> lessByLowerName b a) (sortSlice lessByLowerName xs)"
    using assms by (simp add: meetsSortContract_def)
  then show ?thesis
    by (simp add: sorted_map lessByLowerName_def not_less)
qed

lemma contract_mset:
  assumes "meetsSortContract sortSlice lessByLowerName"
  shows "mset (sortSlice lessByLowerName xs) = mset xs"
  using assms by (simp add: meetsSortContract_def)

lemma ListQueues_sorted:
  assumes "meetsSortContract sortSlice lessByLowerName"
    and "ListQueues n sortSlice sqs arrival api = Some (Inr qs, lg)"
  shows "sorted (map (\<lambda>q. ToLower (Name q)) qs)"
  using assms(2) contract_sorted [OF assms(1)]
  by (auto simp: ListQueues_def Let_def split: option.splits sum.splits if_splits prod.splits)

lemma perm_set: "mset arrival = mset [0..<n] \<Longrightarrow> set arrival = {0..<n}"
  by (metis atLeastLessThan_upt mset_eq_setD)


text \<open>
  The insertion sort of the library sorts: \<open>insertionInner\<close> puts the element at \<open>j\<close> into
  the sorted part before it, and \<open>insertionOuter\<close> does so for one element after the
  other. Hence \<open>smallSort\<close> keeps the promise of \<open>sort.Slice\<close>, and \<open>sort.Slice\<close> on at most
  twelve elements is \<open>smallSort\<close>.
\<close>

lemma Swap_adjacent:
  "Swap (pre @ y # x # post) (Suc (length pre)) (length pre) = pre @ x # y # post"
  by (simp add: Swap_def nth_append list_update_append)

lemma insertionInner_puts:
  "insertionInner lt (pre @ rev rs @ x # post) (length pre) (length pre + length rs) =
     pre @ rev (putDescending lt x rs) @ post"
proof (induction rs arbitrary: post)
  case Nil
  show ?case by (cases "length pre") simp_all
next
  case (Cons y rs)
  let ?xs = "pre @ rev (y # rs) @ x # post"
  have xs: "?xs = (pre @ rev rs) @ y # x # post" by simp
  have j: "length pre + length (y # rs) = Suc (length (pre @ rev rs))" by simp
  have at_j: "?xs ! Suc (length (pre @ rev rs)) = x" unfolding xs by (simp add: nth_append)
  have at_j': "?xs ! length (pre @ rev rs) = y" unfolding xs by (simp add: nth_append)
  show ?case
  proof (cases "lt x y")
    case True
    have "insertionInner lt ?xs (length pre) (length pre + length (y # rs)) =
        insertionInner lt (Swap ?xs (Suc (length (pre @ rev rs))) (length (pre @ rev rs)))
          (length pre) (length (pre @ rev rs))"
      unfolding j using True at_j at_j' by simp
    also have "Swap ?xs (Suc (length (pre @ rev rs))) (length (pre @ rev rs)) =
        (pre @ rev rs) @ x # y # post"
      unfolding xs by (rule Swap_adjacent)
    also have "insertionInner lt ((pre @ rev rs) @ x # y # post) (length pre) (length (pre @ rev rs)) =
        pre @ rev (putDescending lt x rs) @ y # post"
      using Cons.IH [of "y # post"] by simp
    finally show ?thesis using True by simp
  next
    case False
    have "insertionInner lt ?xs (length pre) (length pre + length (y # rs)) = ?xs"
      unfolding j using False at_j at_j' by simp
    then show ?thesis using False by simp
  qed
qed

lemma mset_putDescending: "mset (putDescending lt x ys) = add_mset x (mset ys)"
  by (induction ys) auto

lemma length_putDescending: "length (putDescending lt x ys) = Suc (length ys)"
  by (induction ys) auto

lemma set_putDescending: "set (putDescending lt x ys) = insert x (set ys)"
  by (induction ys) auto

lemma sorted_putDescending:
  fixes key :: "'a \<Rightarrow> 'k::linorder"
  assumes "sorted (map key (rev ys))"
  shows "sorted (map key (rev (putDescending (\<lambda>a b. key a < key b) x ys)))"
  using assms
proof (induction ys)
  case Nil
  show ?case by simp
next
  case (Cons y ys)
  from Cons.prems have s: "sorted (map key (rev ys))" and le: "\<forall>z \<in> set ys. key z \<le> key y"
    by (auto simp: sorted_append)
  show ?case
  proof (cases "key x < key y")
    case True
    have "\<forall>z \<in> set (putDescending (\<lambda>a b. key a < key b) x ys). key z \<le> key y"
      using le True by (auto simp: set_putDescending)
    then show ?thesis
      using True Cons.IH [OF s] by (auto simp: sorted_append)
  next
    case False
    then show ?thesis using Cons.prems by (auto simp: sorted_append)
  qed
qed

lemma insertionOuter_sorts:
  fixes key :: "'a \<Rightarrow> 'k::linorder"
  assumes "sorted (map key (rev rs))"
  shows "mset (insertionOuter (\<lambda>a b. key a < key b) (rev rs @ rest) 0 (length rs + length rest)
            (length rs)) = mset rs + mset rest \<and>
         sorted (map key (insertionOuter (\<lambda>a b. key a < key b) (rev rs @ rest) 0
            (length rs + length rest) (length rs)))"
  using assms
proof (induction rest arbitrary: rs)
  case Nil
  then show ?case by (subst (1 2) insertionOuter.simps) simp
next
  case (Cons x rest)
  let ?lt = "\<lambda>a b. key a < key b"
  let ?rs' = "putDescending ?lt x rs"
  have inner: "insertionInner ?lt (rev rs @ x # rest) 0 (length rs) = rev ?rs' @ rest"
    using insertionInner_puts [of ?lt "[]" rs x rest] by simp
  have s': "sorted (map key (rev ?rs'))" by (rule sorted_putDescending [OF Cons.prems])
  have unfold: "insertionOuter ?lt (rev rs @ x # rest) 0 (length rs + length (x # rest)) (length rs) =
      insertionOuter ?lt (rev ?rs' @ rest) 0 (length ?rs' + length rest) (length ?rs')"
    by (subst insertionOuter.simps) (simp add: inner length_putDescending)
  show ?case
    unfolding unfold using Cons.IH [OF s'] by (simp add: mset_putDescending)
qed

lemma smallSort_sorts:
  fixes key :: "'a \<Rightarrow> 'k::linorder"
  shows "mset (smallSort (\<lambda>a b. key a < key b) xs) = mset xs \<and>
         sorted (map key (smallSort (\<lambda>a b. key a < key b) xs))"
proof (cases xs)
  case Nil
  then show ?thesis
    by (simp add: smallSort_def insertionSort_func_def insertionOuter.simps)
next
  case (Cons x rest)
  have "sorted (map key (rev [x]))" by simp
  from insertionOuter_sorts [OF this, of rest]
  show ?thesis by (simp add: smallSort_def insertionSort_func_def Cons)
qed

lemma smallSort_contract: "meetsSortContract smallSort lessByLowerName"
proof -
  have l: "lessByLowerName = (\<lambda>a b. ToLower (Name a) < ToLower (Name b))"
    by (intro ext) (simp add: lessByLowerName_def)
  have "mset (smallSort lessByLowerName xs) = mset xs \<and>
        sorted_wrt (\<lambda>a b. \<not> lessByLowerName b a) (smallSort lessByLowerName xs)" for xs
    using smallSort_sorts [of "\<lambda>q. ToLower (Name q)" xs]
    unfolding l sorted_map by (simp add: not_less)
  then show ?thesis by (simp add: meetsSortContract_def)
qed

lemma sort_Slice_small:
  assumes "length xs \<le> 12"
  shows "sort_Slice lt xs = Some (smallSort lt xs)"
  using assms by (simp add: sort_Slice_def smallSort_def)

lemma goSort_small: "length xs \<le> 12 \<Longrightarrow> goSort lt xs = smallSort lt xs"
  by (simp add: goSort_def sort_Slice_small)


text \<open>
  Claim C1 says that items whose lower-case names are equal keep their order. On the code
  the batch is sorted with \<open>sort.Slice\<close>, which is not stable. A page of thirteen queues
  whose first two names are \<open>E\<close> and \<open>e\<close>, every fetch succeeding: the items are collected
  in the order of the page (\<open>E\<close> before \<open>e\<close>), the two names are equal in lower case, and the
  sort (which stays on the modelled path: the model answers \<open>Some\<close>) returns \<open>e\<close> before
  \<open>E\<close>.
\<close>

theorem ties_reordered_counterexample:
  "map Name (fetchedQueues allFound thirteenURLs) =
     [''E'', ''e'', ''b'', ''c'', ''d'', ''f'', ''g'', ''h'', ''i'', ''j'', ''k'', ''l'', ''a''] \<and>
   ToLower ''E'' = ToLower ''e'' \<and>
   sort_Slice lessByLowerName (validQueues (fetchedQueues allFound thirteenURLs)) =
     Some (fst (fetchQueueAttributesBatch goSort allFound [0..<13] thirteenURLs)) \<and>
   map Name (fst (fetchQueueAttributesBatch goSort allFound [0..<13] thirteenURLs)) =
     [''a'', ''b'', ''c'', ''d'', ''e'', ''E'', ''f'', ''g'', ''h'', ''i'', ''j'', ''k'', ''l'']"
  by code_simp

text \<open>
  Claim C1, amended. For every sort that keeps the promise of \<open>sort.Slice\<close> and every order
  of arrival of the results, the batch \<open>fetchQueueAttributesBatch\<close> returns is the sort
  applied to the fetched queues (those with a URL that is not empty) taken in the order of
  the page, and it is sorted by lower-case name; so is every list \<open>ListQueues\<close> returns.
  Nothing is said about the order of items whose lower-case names are equal.
\<close>

theorem batch_sorted_by_lower_name:
  assumes "meetsSortContract sortSlice lessByLowerName"
    and "mset arrival = mset [0..<length queueURLs]"
  shows "fst (fetchQueueAttributesBatch sortSlice sqs arrival queueURLs) =
           sortSlice lessByLowerName (validQueues (fetchedQueues sqs queueURLs)) \<and>
         sorted (map (\<lambda>q. ToLower (Name q))
           (fst (fetchQueueAttributesBatch sortSlice sqs arrival queueURLs))) \<and>
         (ListQueues n sortSlice sqs arrival' api = Some (Inr qs, lg) \<longrightarrow>
            sorted (map (\<lambda>q. ToLower (Name q)) qs))"
proof -
  have eq: "fst (fetchQueueAttributesBatch sortSlice sqs arrival queueURLs) =
           sortSlice lessByLowerName (validQueues (fetchedQueues sqs queueURLs))"
    by (rule batch_is_sorted_fetched [OF perm_set [OF assms(2)]])
  show ?thesis
    using eq contract_sorted [OF assms(1)] ListQueues_sorted [OF assms(1)] by simp
qed

theorem batch_sorted_by_lower_name_witness:
  "meetsSortContract smallSort lessByLowerName \<and>
   mset [2, 0, 1] = mset [0..<length threeURLs] \<and>
   map Name (fst (fetchQueueAttributesBatch smallSort secondGone [2, 0, 1] threeURLs)) =
     [''Alpha'', ''beta''] \<and>
   sorted (map (\<lambda>q. ToLower (Name q))
     (fst (fetchQueueAttributesBatch smallSort secondGone [2, 0, 1] threeURLs)))"
proof -
  have upt3: "[0..<length threeURLs] = [0, 1, 2]" by code_simp
  have perm: "mset [2, 0, 1] = mset [0..<length threeURLs]"
    unfolding upt3 by (simp add: add_mset_commute)
  have names: "map Name (fst (fetchQueueAttributesBatch smallSort secondGone [2, 0, 1] threeURLs)) =
     [''Alpha'', ''beta'']"
    by code_simp
  have "sorted (map (\<lambda>q. ToLower (Name q))
     (fst (fetchQueueAttributesBatch smallSort secondGone [2, 0, 1] threeURLs)))"
    using batch_sorted_by_lower_name [OF smallSort_contract perm, of secondGone 0 "[]"
        "(\<lambda>t. Inr \<lparr>Items = [], NextToken = None\<rparr>)" "[]" "[]"]
    by (rule conjunct1 [OF conjunct2])
  with smallSort_contract perm names show ?thesis by (intro conjI)
qed


lemma fetchedQueues_append:
  "fetchedQueues sqs (xs @ ys) = fetchedQueues sqs xs @ fetchedQueues sqs ys"
  by (simp add: fetchedQueues_def)

lemma fetchedQueues_all_found:
  assumes "\<forall>u \<in> set us. \<exists>attrs. sqs u = Inr attrs"
  shows "fetchedQueues sqs us = map (\<lambda>u. convertQueueAttributes u (projr (sqs u))) us"
  using assms
  by (induction us) (auto simp: fetchedQueues_def GetQueueAttributes_def)

lemma fetchedQueues_one_failed:
  assumes i: "i < length urls" and fail: "sqs (urls ! i) = Inl e"
    and others: "\<forall>j < length urls. j \<noteq> i \<longrightarrow> (\<exists>attrs. sqs (urls ! j) = Inr attrs)"
  shows "fetchedQueues sqs urls =
     map (\<lambda>u. convertQueueAttributes u (projr (sqs u))) (take i urls @ drop (Suc i) urls)"
proof -
  have split: "urls = take i urls @ [urls ! i] @ drop (Suc i) urls"
    using i by (simp add: id_take_nth_drop)
  have before: "\<forall>u \<in> set (take i urls). \<exists>attrs. sqs u = Inr attrs"
  proof
    fix u assume "u \<in> set (take i urls)"
    then obtain j where "j < i" "u = urls ! j"
      using i by (auto simp: in_set_conv_nth)
    then show "\<exists>attrs. sqs u = Inr attrs" using others i by auto
  qed
  have after: "\<forall>u \<in> set (drop (Suc i) urls). \<exists>attrs. sqs u = Inr attrs"
  proof
    fix u assume "u \<in> set (drop (Suc i) urls)"
    then obtain j where "j < length urls - Suc i" "u = urls ! (Suc i + j)"
      by (auto simp: in_set_conv_nth)
    then show "\<exists>attrs. sqs u = Inr attrs" using others by auto
  qed
  have mid: "fetchedQueues sqs [urls ! i] = []"
    using fail by (simp add: fetchedQueues_def GetQueueAttributes_def)
  have "fetchedQueues sqs urls =
      fetchedQueues sqs (take i urls) @ fetchedQueues sqs [urls ! i] @
      fetchedQueues sqs (drop (Suc i) urls)"
    by (subst split) (simp only: fetchedQueues_append)
  then show ?thesis
    by (simp add: mid fetchedQueues_all_found [OF before] fetchedQueues_all_found [OF after])
qed

lemma fetchErrors_none:
  assumes "\<forall>j \<in> set js. \<exists>attrs. sqs (urls ! j) = Inr attrs"
  shows "fetchErrors sqs js urls = []"
  using assms by (induction js) (auto simp: fetchErrors_def GetQueueAttributes_def)

lemma fetchErrors_append:
  "fetchErrors sqs (xs @ ys) urls = fetchErrors sqs xs urls @ fetchErrors sqs ys urls"
  by (simp add: fetchErrors_def)

lemma fetchErrors_one_failed:
  assumes perm: "mset arrival = mset [0..<length urls]"
    and i: "i < length urls" and fail: "sqs (urls ! i) = Inl e"
    and others: "\<forall>j < length urls. j \<noteq> i \<longrightarrow> (\<exists>attrs. sqs (urls ! j) = Inr attrs)"
  shows "fetchErrors sqs arrival urls = [Wrapped ''failed to get queue attributes'' e]"
proof -
  have set_arr: "set arrival = {0..<length urls}" by (rule perm_set [OF perm])
  have dist: "distinct arrival"
    using perm by (metis distinct_upt mset_eq_imp_distinct_iff)
  from i set_arr have "i \<in> set arrival" by simp
  then obtain pre post where arr: "arrival = pre @ i # post" by (meson split_list)
  with dist have ni: "i \<notin> set pre" "i \<notin> set post" by auto
  have inside: "j < length urls" if "j \<in> set arrival" for j
    using that set_arr by simp
  have pre: "\<forall>j \<in> set pre. \<exists>attrs. sqs (urls ! j) = Inr attrs"
  proof
    fix j assume j: "j \<in> set pre"
    then have "j < length urls" "j \<noteq> i" using inside [of j] ni arr by auto
    then show "\<exists>attrs. sqs (urls ! j) = Inr attrs" using others by simp
  qed
  have post: "\<forall>j \<in> set post. \<exists>attrs. sqs (urls ! j) = Inr attrs"
  proof
    fix j assume j: "j \<in> set post"
    then have "j < length urls" "j \<noteq> i" using inside [of j] ni arr by auto
    then show "\<exists>attrs. sqs (urls ! j) = Inr attrs" using others by simp
  qed
  have mid: "fetchErrors sqs [i] urls = [Wrapped ''failed to get queue attributes'' e]"
    using fail by (simp add: fetchErrors_def GetQueueAttributes_def)
  have "fetchErrors sqs arrival urls =
      fetchErrors sqs pre urls @ fetchErrors sqs [i] urls @ fetchErrors sqs post urls"
    unfolding arr by (simp add: fetchErrors_def)
  then show ?thesis
    by (simp add: mid fetchErrors_none [OF pre] fetchErrors_none [OF post])
qed

lemma ListQueues_as_batch:
  assumes "collectQueueURLs n api NewPaginator [] = Some (Inr urls)" and "urls \<noteq> []"
  shows "ListQueues n sortSlice sqs arrival api =
     Some (Inr (fst (fetchQueueAttributesBatch sortSlice sqs arrival urls)),
           snd (fetchQueueAttributesBatch sortSlice sqs arrival urls) @
           [Info ''Found %d SQS queues''
              [length (fst (fetchQueueAttributesBatch sortSlice sqs arrival urls))]])"
  using assms
  by (simp add: ListQueues_def fetchQueueAttributesBatch_def Let_def split: prod.splits)

text \<open>
  The filter tells a fetched queue from the slot of a failed fetch by the URL alone (its
  comment reads \<open>Filter out empty entries (failed fetches)\<close>). The URLs of a page are
  those SQS has listed, and SQS hands out no empty queue URL and answers none. Were an empty URL answered, the queue fetched for it would be dropped with
  the failed ones: on a page of two URLs, the first empty and fetched, the second failing,
  the batch is empty.
\<close>

lemma answered_empty_url_is_dropped:
  "length emptyURLPage = 2 \<and>
   GetQueueAttributes onlyEmptyFound (emptyURLPage ! 0) = Inr (convertQueueAttributes [] []) \<and>
   GetQueueAttributes onlyEmptyFound (emptyURLPage ! 1) =
     Inl (Wrapped ''failed to get queue attributes'' (ServiceError ''queue does not exist'')) \<and>
   fetchQueueAttributesBatch goSort onlyEmptyFound [0, 1] emptyURLPage =
     ([], [Warn ''Failed to get attributes for queue: %v''
             (Wrapped ''failed to get queue attributes'' (ServiceError ''queue does not exist''))])"
  by code_simp

text \<open>
  Claim C2. For every page of \<open>M\<close> URLs, every service that answers no empty URL of the
  page, every order of arrival and every sort that keeps the promise of \<open>sort.Slice\<close>: if
  the fetch for one index fails and the fetches for the other \<open>M - 1\<close> succeed, then
  \<open>fetchQueueAttributesBatch\<close> returns (it has no error result) a batch that holds exactly
  the \<open>M - 1\<close> queues fetched, and the log holds exactly one warning, with the error of
  the failed fetch. \<open>ListQueues\<close> on these URLs returns the same batch and no error. The
  failing URL itself may be the empty one.
\<close>

theorem one_failed_fetch_drops_one_item:
  assumes contract: "meetsSortContract sortSlice lessByLowerName"
    and perm: "mset arrival = mset [0..<length queueURLs]"
    and answered: "[] \<in> set queueURLs \<longrightarrow> (\<forall>attrs. sqs [] \<noteq> Inr attrs)"
    and i: "i < length queueURLs" and fail: "sqs (queueURLs ! i) = Inl e"
    and others: "\<forall>j < length queueURLs. j \<noteq> i \<longrightarrow> (\<exists>attrs. sqs (queueURLs ! j) = Inr attrs)"
  shows "mset (fst (fetchQueueAttributesBatch sortSlice sqs arrival queueURLs)) =
           mset (map (\<lambda>u. convertQueueAttributes u (projr (sqs u)))
                  (take i queueURLs @ drop (Suc i) queueURLs)) \<and>
         length (fst (fetchQueueAttributesBatch sortSlice sqs arrival queueURLs)) =
           length queueURLs - 1 \<and>
         snd (fetchQueueAttributesBatch sortSlice sqs arrival queueURLs) =
           [Warn ''Failed to get attributes for queue: %v''
              (Wrapped ''failed to get queue attributes'' e)] \<and>
         (collectQueueURLs n api NewPaginator [] = Some (Inr queueURLs) \<longrightarrow>
            ListQueues n sortSlice sqs arrival api =
              Some (Inr (fst (fetchQueueAttributesBatch sortSlice sqs arrival queueURLs)),
                    [Warn ''Failed to get attributes for queue: %v''
                       (Wrapped ''failed to get queue attributes'' e),
                     Info ''Found %d SQS queues'' [length queueURLs - 1]]))"
proof -
  let ?batch = "fetchQueueAttributesBatch sortSlice sqs arrival queueURLs"
  let ?kept = "map (\<lambda>u. convertQueueAttributes u (projr (sqs u)))
                  (take i queueURLs @ drop (Suc i) queueURLs)"
  have fetched: "fetchedQueues sqs queueURLs = ?kept"
    by (rule fetchedQueues_one_failed [OF i fail others])
  have vf: "validQueues (fetchedQueues sqs queueURLs) = ?kept"
    by (rule trans [OF validQueues_fetched [where sqs = sqs and urls = queueURLs, OF answered]
        fetched])
  have "fst ?batch = sortSlice lessByLowerName (validQueues (fetchedQueues sqs queueURLs))"
    by (rule batch_is_sorted_fetched [OF perm_set [OF perm]])
  then have eq: "fst ?batch = sortSlice lessByLowerName ?kept"
    by (simp only: vf)
  have m: "mset (fst ?batch) = mset ?kept"
    unfolding eq by (rule contract_mset [OF contract])
  have "length (fst ?batch) = length ?kept"
    using m by (rule mset_eq_length)
  then have l: "length (fst ?batch) = length queueURLs - 1"
    using i by simp
  have w: "snd ?batch = [Warn ''Failed to get attributes for queue: %v''
              (Wrapped ''failed to get queue attributes'' e)]"
    by (simp add: batch_log fetchErrors_one_failed [OF perm i fail others])
  have ne: "queueURLs \<noteq> []" using i by auto
  show ?thesis
    using m l w ListQueues_as_batch [OF _ ne, of n api sortSlice sqs arrival]
    by simp
qed

theorem one_failed_fetch_drops_one_item_witness:
  "length threeURLs = 3 \<and> [] \<notin> set threeURLs \<and>
   secondGone (threeURLs ! 0) = Inr [] \<and>
   secondGone (threeURLs ! 1) = Inl (ServiceError ''queue does not exist'') \<and>
   secondGone (threeURLs ! 2) = Inr [] \<and>
   length (fst (fetchQueueAttributesBatch smallSort secondGone [2, 0, 1] threeURLs)) = 2 \<and>
   mset (fst (fetchQueueAttributesBatch smallSort secondGone [2, 0, 1] threeURLs)) =
     mset [convertQueueAttributes ''https://sqs/1/beta'' [],
           convertQueueAttributes ''https://sqs/1/Alpha'' []] \<and>
   snd (fetchQueueAttributesBatch smallSort secondGone [2, 0, 1] threeURLs) =
     [Warn ''Failed to get attributes for queue: %v''
        (Wrapped ''failed to get queue attributes'' (ServiceError ''queue does not exist''))] \<and>
   length pageWithEmptyURL = 3 \<and> [] \<in> set pageWithEmptyURL \<and>
   emptyRejected (pageWithEmptyURL ! 0) = Inr [] \<and>
   emptyRejected (pageWithEmptyURL ! 1) = Inl (ServiceError ''invalid queue URL'') \<and>
   emptyRejected (pageWithEmptyURL ! 2) = Inr [] \<and>
   length (fst (fetchQueueAttributesBatch smallSort emptyRejected [1, 2, 0] pageWithEmptyURL)) = 2 \<and>
   mset (fst (fetchQueueAttributesBatch smallSort emptyRejected [1, 2, 0] pageWithEmptyURL)) =
     mset [convertQueueAttributes ''https://sqs/1/beta'' [],
           convertQueueAttributes ''https://sqs/1/Alpha'' []] \<and>
   snd (fetchQueueAttributesBatch smallSort emptyRejected [1, 2, 0] pageWithEmptyURL) =
     [Warn ''Failed to get attributes for queue: %v''
        (Wrapped ''failed to get queue attributes'' (ServiceError ''invalid queue URL''))]"
proof -
  have len: "length threeURLs = 3" by (simp add: threeURLs_def)
  have upt3: "[0..<length threeURLs] = [0, 1, 2]" by code_simp
  have perm: "mset [2, 0, 1] = mset [0..<length threeURLs]"
    unfolding upt3 by (simp add: add_mset_commute)
  have none: "[] \<notin> set threeURLs" by (simp add: threeURLs_def)
  then have answered: "[] \<in> set threeURLs \<longrightarrow> (\<forall>attrs. secondGone [] \<noteq> Inr attrs)" by simp
  have i: "1 < length threeURLs" by (simp add: len)
  have s0: "secondGone (threeURLs ! 0) = Inr []" by (simp add: threeURLs_def secondGone_def)
  have s1: "secondGone (threeURLs ! 1) = Inl (ServiceError ''queue does not exist'')"
    by (simp add: threeURLs_def secondGone_def)
  have s2: "secondGone (threeURLs ! 2) = Inr []" by (simp add: threeURLs_def secondGone_def)
  have others: "\<forall>j < length threeURLs. j \<noteq> 1 \<longrightarrow> (\<exists>attrs. secondGone (threeURLs ! j) = Inr attrs)"
  proof (intro allI impI)
    fix j assume "j < length threeURLs" "j \<noteq> 1"
    then have "j = 0 \<or> j = 2" using len by auto
    then show "\<exists>attrs. secondGone (threeURLs ! j) = Inr attrs" using s0 s2 by auto
  qed
  have kept: "map (\<lambda>u. convertQueueAttributes u (projr (secondGone u)))
      (take 1 threeURLs @ drop (Suc 1) threeURLs) =
      [convertQueueAttributes ''https://sqs/1/beta'' [],
       convertQueueAttributes ''https://sqs/1/Alpha'' []]"
    by (simp add: threeURLs_def secondGone_def)
  from one_failed_fetch_drops_one_item [OF smallSort_contract perm answered i s1 others,
      of 0 "\<lambda>t. Inr \<lparr>Items = [], NextToken = None\<rparr>"]
  have a: "mset (fst (fetchQueueAttributesBatch smallSort secondGone [2, 0, 1] threeURLs)) =
           mset (map (\<lambda>u. convertQueueAttributes u (projr (secondGone u)))
                  (take 1 threeURLs @ drop (Suc 1) threeURLs))"
    and b: "length (fst (fetchQueueAttributesBatch smallSort secondGone [2, 0, 1] threeURLs)) =
           length threeURLs - 1"
    and c: "snd (fetchQueueAttributesBatch smallSort secondGone [2, 0, 1] threeURLs) =
           [Warn ''Failed to get attributes for queue: %v''
              (Wrapped ''failed to get queue attributes'' (ServiceError ''queue does not exist''))]"
    by blast+
  have first: "length (fst (fetchQueueAttributesBatch smallSort secondGone [2, 0, 1] threeURLs)) = 2 \<and>
     mset (fst (fetchQueueAttributesBatch smallSort secondGone [2, 0, 1] threeURLs)) =
       mset [convertQueueAttributes ''https://sqs/1/beta'' [],
             convertQueueAttributes ''https://sqs/1/Alpha'' []]"
    using a b len by (simp only: kept) simp
  have len': "length pageWithEmptyURL = 3" by (simp add: pageWithEmptyURL_def)
  have upt3': "[0..<length pageWithEmptyURL] = [0, 1, 2]" by code_simp
  have perm': "mset [1, 2, 0] = mset [0..<length pageWithEmptyURL]"
    unfolding upt3' by (simp add: add_mset_commute)
  have some: "[] \<in> set pageWithEmptyURL" by (simp add: pageWithEmptyURL_def)
  have answered': "[] \<in> set pageWithEmptyURL \<longrightarrow> (\<forall>attrs. emptyRejected [] \<noteq> Inr attrs)"
    by (simp add: emptyRejected_def)
  have i': "1 < length pageWithEmptyURL" by (simp add: len')
  have r0: "emptyRejected (pageWithEmptyURL ! 0) = Inr []"
    by (simp add: pageWithEmptyURL_def emptyRejected_def)
  have r1: "emptyRejected (pageWithEmptyURL ! 1) = Inl (ServiceError ''invalid queue URL'')"
    by (simp add: pageWithEmptyURL_def emptyRejected_def)
  have r2: "emptyRejected (pageWithEmptyURL ! 2) = Inr []"
    by (simp add: pageWithEmptyURL_def emptyRejected_def)
  have others': "\<forall>j < length pageWithEmptyURL. j \<noteq> 1 \<longrightarrow>
      (\<exists>attrs. emptyRejected (pageWithEmptyURL ! j) = Inr attrs)"
  proof (intro allI impI)
    fix j assume "j < length pageWithEmptyURL" "j \<noteq> 1"
    then have "j = 0 \<or> j = 2" using len' by auto
    then show "\<exists>attrs. emptyRejected (pageWithEmptyURL ! j) = Inr attrs" using r0 r2 by auto
  qed
  have kept': "map (\<lambda>u. convertQueueAttributes u (projr (emptyRejected u)))
      (take 1 pageWithEmptyURL @ drop (Suc 1) pageWithEmptyURL) =
      [convertQueueAttributes ''https://sqs/1/beta'' [],
       convertQueueAttributes ''https://sqs/1/Alpha'' []]"
    by (simp add: pageWithEmptyURL_def emptyRejected_def)
  from one_failed_fetch_drops_one_item [OF smallSort_contract perm' answered' i' r1 others',
      of 0 "\<lambda>t. Inr \<lparr>Items = [], NextToken = None\<rparr>"]
  have a': "mset (fst (fetchQueueAttributesBatch smallSort emptyRejected [1, 2, 0] pageWithEmptyURL)) =
           mset (map (\<lambda>u. convertQueueAttributes u (projr (emptyRejected u)))
                  (take 1 pageWithEmptyURL @ drop (Suc 1) pageWithEmptyURL))"
    and b': "length (fst (fetchQueueAttributesBatch smallSort emptyRejected [1, 2, 0] pageWithEmptyURL)) =
           length pageWithEmptyURL - 1"
    and c': "snd (fetchQueueAttributesBatch smallSort emptyRejected [1, 2, 0] pageWithEmptyURL) =
           [Warn ''Failed to get attributes for queue: %v''
              (Wrapped ''failed to get queue attributes'' (ServiceError ''invalid queue URL''))]"
    by blast+
  have second: "length (fst (fetchQueueAttributesBatch smallSort emptyRejected [1, 2, 0] pageWithEmptyURL)) = 2 \<and>
     mset (fst (fetchQueueAttributesBatch smallSort emptyRejected [1, 2, 0] pageWithEmptyURL)) =
       mset [convertQueueAttributes ''https://sqs/1/beta'' [],
             convertQueueAttributes ''https://sqs/1/Alpha'' []]"
    using a' b' len' by (simp only: kept') simp
  show ?thesis
    using len none s0 s1 s2 first c len' some r0 r1 r2 second c' by (intro conjI) simp_all
qed
section \<open>The fan-out never exceeds its cap\<close>

lemma filter_update_length:
  assumes "i < length xs"
  shows "length (filter P (xs[i := y])) + (if P (xs ! i) then 1 else 0) =
         length (filter P xs) + (if P y then 1 else 0)"
  using assms
proof (induction xs arbitrary: i)
  case Nil
  then show ?case by simp
next
  case (Cons x xs)
  then show ?case by (cases i) auto
qed

lemma holding_le_length: "holding s \<le> length (places s)"
  by (simp add: holding_def)

lemma inFlight_le_holding: "inFlight s \<le> holding s"
proof -
  have "length (filter (\<lambda>p. p = Fetching) ps) \<le> length (filter holdsToken ps)" for ps
    by (induction ps) auto
  then show ?thesis by (simp add: inFlight_def holding_def)
qed

lemma step_keeps_tokens:
  assumes "step s t" and "sem s = holding s" and "sem s \<le> maxConcurrentSQSCalls"
  shows "sem t = holding t \<and> sem t \<le> maxConcurrentSQSCalls"
  using assms
proof (cases rule: step.cases)
  case (acquire idx)
  then show ?thesis
    using assms(2,3) filter_update_length [of idx "places s" holdsToken Fetching]
    by (simp add: holding_def)
next
  case (fetched idx)
  then show ?thesis
    using assms(2,3) filter_update_length [of idx "places s" holdsToken Sending]
    by (simp add: holding_def)
next
  case (sent idx)
  then show ?thesis
    using assms(2,3) filter_update_length [of idx "places s" holdsToken Releasing]
    by (simp add: holding_def)
next
  case (released idx)
  then show ?thesis
    using assms(2,3) filter_update_length [of idx "places s" holdsToken Finished]
    by (simp add: holding_def) linarith
qed

lemma reachable_tokens:
  assumes "step\<^sup>*\<^sup>* (spawned queueURLs) s"
  shows "sem s = holding s \<and> sem s \<le> maxConcurrentSQSCalls"
  using assms
proof (induction rule: rtranclp_induct)
  case base
  show ?case by (simp add: spawned_def holding_def)
next
  case (step s t)
  then show ?case using step_keeps_tokens by blast
qed

lemma firstFetching_step:
  assumes "k < n" and "k < maxConcurrentSQSCalls"
  shows "step (firstFetching k n) (firstFetching (Suc k) n)"
proof -
  let ?s = "firstFetching k n"
  have a: "k < length (places ?s)" using assms by (simp add: firstFetching_def)
  have b: "places ?s ! k = BeforeAcquire"
    using assms by (simp add: firstFetching_def nth_append)
  have c: "sem ?s < maxConcurrentSQSCalls" using assms by (simp add: firstFetching_def)
  have upd: "(replicate k Fetching @ replicate (n - k) BeforeAcquire)[k := Fetching] =
      replicate (Suc k) Fetching @ replicate (n - Suc k) BeforeAcquire"
  proof -
    obtain m where m: "n - k = Suc m" using assms by (cases "n - k") auto
    then have "n - Suc k = m" by simp
    then show ?thesis
      using m by (simp add: list_update_append replicate_append_same)
  qed
  have "?s\<lparr>places := (places ?s)[k := Fetching], sem := sem ?s + 1\<rparr> = firstFetching (Suc k) n"
    using upd by (simp add: firstFetching_def)
  then show ?thesis using step.acquire [OF a b c] by simp
qed

lemma firstFetching_reachable:
  assumes "k \<le> n" and "k \<le> maxConcurrentSQSCalls"
  shows "step\<^sup>*\<^sup>* (spawned (replicate n u)) (firstFetching k n)"
  using assms
proof (induction k)
  case 0
  then show ?case by (simp add: spawned_def firstFetching_def)
next
  case (Suc k)
  then have "step\<^sup>*\<^sup>* (spawned (replicate n u)) (firstFetching k n)" by simp
  moreover have "step (firstFetching k n) (firstFetching (Suc k) n)"
    using Suc.prems by (intro firstFetching_step) auto
  ultimately show ?case by (rule rtranclp.rtrancl_into_rtrancl)
qed

lemma inFlight_firstFetching: "inFlight (firstFetching k n) = k"
  by (simp add: inFlight_def firstFetching_def)

lemma indices_update:
  assumes "idx < length ps"
  shows "{i. i < length (ps[idx := y]) \<and> P (ps[idx := y] ! i)} =
     (if P y then insert idx {i. i < length ps \<and> P (ps ! i)}
      else {i. i < length ps \<and> P (ps ! i)} - {idx})"
proof (cases "P y")
  case True
  show ?thesis
  proof (rule set_eqI)
    fix i
    show "i \<in> {i. i < length (ps[idx := y]) \<and> P (ps[idx := y] ! i)} \<longleftrightarrow>
          i \<in> (if P y then insert idx {i. i < length ps \<and> P (ps ! i)}
                else {i. i < length ps \<and> P (ps ! i)} - {idx})"
      using assms True by (cases "i = idx") simp_all
  qed
next
  case False
  show ?thesis
  proof (rule set_eqI)
    fix i
    show "i \<in> {i. i < length (ps[idx := y]) \<and> P (ps[idx := y] ! i)} \<longleftrightarrow>
          i \<in> (if P y then insert idx {i. i < length ps \<and> P (ps ! i)}
                else {i. i < length ps \<and> P (ps ! i)} - {idx})"
      using assms False by (cases "i = idx") simp_all
  qed
qed

lemma step_keeps_results:
  assumes "step s t"
    and "distinct (results s)"
    and "set (results s) = {i. i < length (places s) \<and> leftFetch (places s ! i)}"
  shows "length (places t) = length (places s) \<and> distinct (results t) \<and>
         set (results t) = {i. i < length (places t) \<and> leftFetch (places t ! i)}"
  using assms(1)
proof (cases rule: step.cases)
  case (acquire idx)
  have "idx \<notin> set (results s)" using acquire assms(3) by (simp add: leftFetch_def)
  then show ?thesis
    using acquire assms(2,3) indices_update [of idx "places s" Fetching leftFetch]
    by (simp add: leftFetch_def)
next
  case (fetched idx)
  have "idx \<notin> set (results s)" using fetched assms(3) by (simp add: leftFetch_def)
  then show ?thesis
    using fetched assms(2,3) indices_update [of idx "places s" Sending leftFetch]
    by (simp add: leftFetch_def)
next
  case (sent idx)
  have "idx \<notin> set (results s)" using sent assms(3) by (simp add: leftFetch_def)
  then show ?thesis
    using sent assms(2,3) indices_update [of idx "places s" Releasing leftFetch]
    by (simp add: leftFetch_def)
next
  case (released idx)
  have "idx \<in> set (results s)" using released assms(3) by (simp add: leftFetch_def)
  then show ?thesis
    using released assms(2,3) indices_update [of idx "places s" Finished leftFetch]
    by (simp add: leftFetch_def insert_absorb)
qed

lemma reachable_results:
  assumes "step\<^sup>*\<^sup>* (spawned queueURLs) s"
  shows "length (places s) = length queueURLs \<and> distinct (results s) \<and>
         set (results s) = {i. i < length (places s) \<and> leftFetch (places s ! i)}"
  using assms
proof (induction rule: rtranclp_induct)
  case base
  show ?case by (simp add: spawned_def leftFetch_def)
next
  case (step s t)
  then show ?case using step_keeps_results [of s t] by simp
qed

text \<open>
  When every goroutine has finished, the indices sent on \<open>results\<close> are a permutation of
  the indices of the URLs: this is what the collecting loop receives, in some order,
  before the channel is closed.
\<close>

lemma results_are_a_permutation:
  assumes "step\<^sup>*\<^sup>* (spawned queueURLs) s" and "\<forall>p \<in> set (places s). p = Finished"
  shows "mset (results s) = mset [0..<length queueURLs]"
proof -
  from reachable_results [OF assms(1)]
  have len: "length (places s) = length queueURLs" and d: "distinct (results s)"
    and st: "set (results s) = {i. i < length (places s) \<and> leftFetch (places s ! i)}"
    by simp_all
  have "set (results s) = {0..<length queueURLs}"
    using st len assms(2) by (auto simp: leftFetch_def)
  then have "set (results s) = set [0..<length queueURLs]" by simp
  then show ?thesis using d by (metis distinct_upt set_eq_iff_mset_eq_distinct)
qed


text \<open>
  Claim C3 says that the cap is configurable. The fan-out takes no cap: the buffer of
  \<open>sem\<close> has the constant size \<open>maxConcurrentSQSCalls = 10\<close>. A run on eleven URLs reaches a
  state with ten fetches in flight, more than any cap below ten that a configuration
  would ask for.
\<close>

theorem ten_in_flight_counterexample:
  "step\<^sup>*\<^sup>* (spawned (replicate 11 ''https://sqs/1/q'')) (firstFetching 10 11) \<and>
   inFlight (firstFetching 10 11) = 10 \<and> \<not> inFlight (firstFetching 10 11) \<le> 9"
  using firstFetching_reachable [of 10 11 "''https://sqs/1/q''"]
  by (simp add: inFlight_firstFetching maxConcurrentSQSCalls_def)

text \<open>
  Claim C3, amended. In every state the fan-out can reach, for every number of URLs, at most
  \<open>maxConcurrentSQSCalls\<close> fetches are in flight, and this cap is the constant 10.
\<close>

theorem in_flight_at_most_ten:
  assumes "step\<^sup>*\<^sup>* (spawned queueURLs) s"
  shows "inFlight s \<le> maxConcurrentSQSCalls \<and> maxConcurrentSQSCalls = 10"
  using reachable_tokens [OF assms] inFlight_le_holding [of s]
  by (simp add: maxConcurrentSQSCalls_def)

theorem in_flight_at_most_ten_witness:
  "step\<^sup>*\<^sup>* (spawned (replicate 11 ''https://sqs/1/q'')) (firstFetching 10 11) \<and>
   inFlight (firstFetching 10 11) \<le> maxConcurrentSQSCalls \<and> maxConcurrentSQSCalls = 10"
proof -
  have r: "step\<^sup>*\<^sup>* (spawned (replicate 11 ''https://sqs/1/q'')) (firstFetching 10 11)"
    using firstFetching_reachable [of 10 11 "''https://sqs/1/q''"]
    by (simp add: maxConcurrentSQSCalls_def)
  from in_flight_at_most_ten [OF r] r show ?thesis by blast
qed

section \<open>A callback that answers false stops the listing\<close>

lemma queues_loop_stops:
  assumes "ListQueuesPagedCallback_loop n fetchBatch api callback p st tr0 = (out, st', tr)"
    and "\<forall>e \<in> set tr0. \<not> answeredFalse e"
  shows "(\<forall>e \<in> set tr. \<not> answeredFalse e) \<or>
         (\<exists>tr1 e. tr = tr1 @ [e] \<and> answeredFalse e \<and> (\<forall>e \<in> set tr1. \<not> answeredFalse e) \<and>
            out = Returned None)"
  using assms
proof (induction n arbitrary: p st tr0)
  case 0
  then show ?case by (auto split: if_splits)
next
  case (Suc n)
  show ?case
  proof (cases "HasMorePages p")
    case False
    then show ?thesis using Suc.prems by auto
  next
    case True
    obtain r p' where np: "NextPage api p = (r, p')" by (cases "NextPage api p")
    show ?thesis
    proof (cases r)
      case (Inl e)
      then show ?thesis using Suc.prems True np by auto
    next
      case (Inr pg)
      show ?thesis
      proof (cases "length (Items pg) = 0")
        case True
        with Suc.prems \<open>HasMorePages p\<close> np Inr
        have "ListQueuesPagedCallback_loop n fetchBatch api callback p' st
                (tr0 @ [NextPageCalled (nextToken p)]) = (out, st', tr)" by simp
        moreover have "\<forall>e \<in> set (tr0 @ [NextPageCalled (nextToken p)]). \<not> answeredFalse e"
          using Suc.prems(2) by auto
        ultimately show ?thesis by (rule Suc.IH)
      next
        case False
        obtain continue st1 where cb: "callback st (fetchBatch (Items pg)) (HasMorePages p') = (continue, st1)"
          by (cases "callback st (fetchBatch (Items pg)) (HasMorePages p')")
        let ?tr' = "tr0 @ [NextPageCalled (nextToken p),
                      CallbackInvoked (fetchBatch (Items pg)) (HasMorePages p') continue]"
        show ?thesis
        proof (cases continue)
          case True
          with Suc.prems(1) \<open>HasMorePages p\<close> np Inr False cb
          have "ListQueuesPagedCallback_loop n fetchBatch api callback p' st1 ?tr' = (out, st', tr)"
            by (simp add: Let_def)
          moreover have "\<forall>e \<in> set ?tr'. \<not> answeredFalse e"
            using Suc.prems(2) True by auto
          ultimately show ?thesis by (rule Suc.IH)
        next
          case stop: False
          with Suc.prems(1) \<open>HasMorePages p\<close> np Inr False cb
          have "out = Returned None" "tr = ?tr'" by (simp_all add: Let_def)
          then show ?thesis using Suc.prems(2) stop
            by (intro disjI2 exI [of _ "tr0 @ [NextPageCalled (nextToken p)]"]
                exI [of _ "CallbackInvoked (fetchBatch (Items pg)) (HasMorePages p') continue"]) auto
        qed
      qed
    qed
  qed
qed

lemma functions_loop_stops:
  assumes "ListFunctionsPagedCallback_loop n api callback p st tr0 = (out, st', tr)"
    and "\<forall>e \<in> set tr0. \<not> answeredFalse e"
  shows "(\<forall>e \<in> set tr. \<not> answeredFalse e) \<or>
         (\<exists>tr1 e. tr = tr1 @ [e] \<and> answeredFalse e \<and> (\<forall>e \<in> set tr1. \<not> answeredFalse e) \<and>
            out = Returned None)"
  using assms
proof (induction n arbitrary: p st tr0)
  case 0
  then show ?case by (auto split: if_splits)
next
  case (Suc n)
  show ?case
  proof (cases "HasMorePages p")
    case False
    then show ?thesis using Suc.prems by auto
  next
    case True
    obtain r p' where np: "NextPage api p = (r, p')" by (cases "NextPage api p")
    show ?thesis
    proof (cases r)
      case (Inl e)
      then show ?thesis using Suc.prems True np by auto
    next
      case (Inr pg)
      let ?fs = "map convertFunction (Items pg)"
      obtain continue st1 where cb: "callback st ?fs (HasMorePages p') = (continue, st1)"
        by (cases "callback st ?fs (HasMorePages p')")
      let ?tr' = "tr0 @ [NextPageCalled (nextToken p), CallbackInvoked ?fs (HasMorePages p') continue]"
      show ?thesis
      proof (cases continue)
        case True
        with Suc.prems(1) \<open>HasMorePages p\<close> np Inr cb
        have "ListFunctionsPagedCallback_loop n api callback p' st1 ?tr' = (out, st', tr)"
          by (simp add: Let_def)
        moreover have "\<forall>e \<in> set ?tr'. \<not> answeredFalse e"
          using Suc.prems(2) True by auto
        ultimately show ?thesis by (rule Suc.IH)
      next
        case stop: False
        with Suc.prems(1) \<open>HasMorePages p\<close> np Inr cb
        have "out = Returned None" "tr = ?tr'" by (simp_all add: Let_def)
        then show ?thesis using Suc.prems(2) stop
          by (intro disjI2 exI [of _ "tr0 @ [NextPageCalled (nextToken p)]"]
              exI [of _ "CallbackInvoked ?fs (HasMorePages p') continue"]) auto
      qed
    qed
  qed
qed

lemma false_answer_is_last:
  assumes "(\<forall>e \<in> set tr. \<not> answeredFalse e) \<or>
         (\<exists>tr1 e. tr = tr1 @ [e] \<and> answeredFalse e \<and> (\<forall>e \<in> set tr1. \<not> answeredFalse e) \<and>
            out = Returned None)"
    and "tr = pre @ ev # post" and "answeredFalse ev"
  shows "post = [] \<and> out = Returned None"
proof -
  from assms(2,3) have "\<not> (\<forall>e \<in> set tr. \<not> answeredFalse e)" by auto
  with assms(1) obtain tr1 e where t: "tr = tr1 @ [e]" and c: "\<forall>e \<in> set tr1. \<not> answeredFalse e"
    and o: "out = Returned None" by blast
  have "post = []"
  proof (rule ccontr)
    assume "post \<noteq> []"
    then obtain post' l where "post = post' @ [l]" by (metis rev_exhaust)
    with t assms(2) have "tr1 = pre @ ev # post'" by simp
    with c assms(3) show False by auto
  qed
  with o show ?thesis by simp
qed

text \<open>
  Claim C4. For every paginated source and every callback: when the callback answers
  \<open>false\<close> during \<open>ListQueuesPagedCallback\<close> or \<open>ListFunctionsPagedCallback\<close>, that invocation
  is the last thing the listing does (no further page is fetched, the callback is not
  invoked again), and the listing has returned, with a nil error. This is stated for the
  events of a run of any number of iterations: an invocation answered with \<open>false\<close> has
  nothing after it, and the outcome is the return of nil.
\<close>

theorem false_answer_stops_listing:
  "(ListQueuesPagedCallback n fetchBatch api callback st = (out, st', pre @ ev # post) \<and>
      answeredFalse ev \<longrightarrow> post = [] \<and> out = Returned None) \<and>
   (ListFunctionsPagedCallback n' api' callback' st2 = (out2, st2', pre2 @ ev2 # post2) \<and>
      answeredFalse ev2 \<longrightarrow> post2 = [] \<and> out2 = Returned None)"
proof -
  have queues: "post = [] \<and> out = Returned None"
    if a: "ListQueuesPagedCallback n fetchBatch api callback st = (out, st', pre @ ev # post) \<and>
      answeredFalse ev"
  proof -
    from a have "ListQueuesPagedCallback_loop n fetchBatch api callback NewPaginator st [] =
      (out, st', pre @ ev # post)" by (simp add: ListQueuesPagedCallback_def)
    then have "(\<forall>e \<in> set (pre @ ev # post). \<not> answeredFalse e) \<or>
         (\<exists>tr1 e. pre @ ev # post = tr1 @ [e] \<and> answeredFalse e \<and>
            (\<forall>e \<in> set tr1. \<not> answeredFalse e) \<and> out = Returned None)"
      by (rule queues_loop_stops) simp
    then show ?thesis
      by (rule false_answer_is_last [OF _ refl]) (use a in simp)
  qed
  have lambdas: "post2 = [] \<and> out2 = Returned None"
    if a: "ListFunctionsPagedCallback n' api' callback' st2 = (out2, st2', pre2 @ ev2 # post2) \<and>
      answeredFalse ev2"
  proof -
    from a have "ListFunctionsPagedCallback_loop n' api' callback' NewPaginator st2 [] =
      (out2, st2', pre2 @ ev2 # post2)" by (simp add: ListFunctionsPagedCallback_def)
    then have "(\<forall>e \<in> set (pre2 @ ev2 # post2). \<not> answeredFalse e) \<or>
         (\<exists>tr1 e. pre2 @ ev2 # post2 = tr1 @ [e] \<and> answeredFalse e \<and>
            (\<forall>e \<in> set tr1. \<not> answeredFalse e) \<and> out2 = Returned None)"
      by (rule functions_loop_stops) simp
    then show ?thesis
      by (rule false_answer_is_last [OF _ refl]) (use a in simp)
  qed
  from queues lambdas show ?thesis by blast
qed


lemma queues_run_example:
  "ListQueuesPagedCallback 5 plainFetch threeQueuePages stopAtSecond 0 =
     (Returned None, 2,
      [NextPageCalled None,
       CallbackInvoked (plainFetch [''https://sqs/1/b'', ''https://sqs/1/A'']) True True,
       NextPageCalled (Some ''t1'')] @
      CallbackInvoked (plainFetch [''https://sqs/1/c'']) True False # [])"
  by code_simp

lemma functions_run_example:
  "ListFunctionsPagedCallback 5 threeFunctionPages stopAtSecond 0 =
     (Returned None, 2,
      [NextPageCalled None,
       CallbackInvoked
         [convertFunction \<lparr>FunctionName = Some ''f1'', Runtime = ''go1.x'', State = ''Active''\<rparr>]
         True True,
       NextPageCalled (Some ''m1'')] @
      CallbackInvoked
        [convertFunction \<lparr>FunctionName = Some ''f2'', Runtime = ''go1.x'', State = ''Pending''\<rparr>]
        True False # [])"
  by code_simp

theorem false_answer_stops_listing_witness:
  "ListQueuesPagedCallback 5 plainFetch threeQueuePages stopAtSecond 0 =
     (Returned None, 2,
      [NextPageCalled None,
       CallbackInvoked (plainFetch [''https://sqs/1/b'', ''https://sqs/1/A'']) True True,
       NextPageCalled (Some ''t1'')] @
      CallbackInvoked (plainFetch [''https://sqs/1/c'']) True False # []) \<and>
   answeredFalse (CallbackInvoked (plainFetch [''https://sqs/1/c'']) True False) \<and>
   ListFunctionsPagedCallback 5 threeFunctionPages stopAtSecond 0 =
     (Returned None, 2,
      [NextPageCalled None,
       CallbackInvoked
         [convertFunction \<lparr>FunctionName = Some ''f1'', Runtime = ''go1.x'', State = ''Active''\<rparr>]
         True True,
       NextPageCalled (Some ''m1'')] @
      CallbackInvoked
        [convertFunction \<lparr>FunctionName = Some ''f2'', Runtime = ''go1.x'', State = ''Pending''\<rparr>]
        True False # []) \<and>
   ([] :: Queue event list) = [] \<and> Returned None = Returned None"
  using false_answer_stops_listing
    [of 5 plainFetch threeQueuePages stopAtSecond 0 "Returned None" 2
      "[NextPageCalled None,
        CallbackInvoked (plainFetch [''https://sqs/1/b'', ''https://sqs/1/A'']) True True,
        NextPageCalled (Some ''t1'')]"
      "CallbackInvoked (plainFetch [''https://sqs/1/c'']) True False" "[]"
      5 threeFunctionPages stopAtSecond 0 "Returned None" 2
      "[NextPageCalled None,
        CallbackInvoked
          [convertFunction \<lparr>FunctionName = Some ''f1'', Runtime = ''go1.x'', State = ''Active''\<rparr>]
          True True,
        NextPageCalled (Some ''m1'')]"
      "CallbackInvoked
        [convertFunction \<lparr>FunctionName = Some ''f2'', Runtime = ''go1.x'', State = ''Pending''\<rparr>]
        True False" "[]"]
    queues_run_example functions_run_example
  by simp

section \<open>The first batch replaces, the later ones append\<close>

lemma closureInOrder_init: "closureInOrder (True, [])"
  by (simp add: closureInOrder_def)

lemma closureInOrder_callback:
  assumes "closureInOrder st"
  shows "closureInOrder (snd (lazyLoadCallback st batch hasMore))"
proof -
  obtain isFirst chan where st: "st = (isFirst, chan)" by (cases st)
  from assms st have first: "isFirst \<longleftrightarrow> chan = []"
    and old: "\<And>i. i < length chan \<Longrightarrow> msg_err (chan ! i) = None \<and> msg_isAppend (chan ! i) = (i \<noteq> 0)"
    by (simp_all add: closureInOrder_def)
  have last: "i = length chan \<and> (chan \<noteq> [] \<longleftrightarrow> 0 < i)"
    if "\<not> i < length chan" "i < Suc (length chan)" for i
    using that by (cases chan) auto
  show ?thesis
    using first old last
    by (auto simp: closureInOrder_def lazyLoadCallback_def st nth_append)
qed

lemma queues_loop_keeps:
  assumes step: "\<And>s batch hasMore. I s \<Longrightarrow> I (snd (callback s batch hasMore))"
    and "I st"
    and "ListQueuesPagedCallback_loop n fetchBatch api callback p st tr0 = (out, st', tr)"
  shows "I st'"
  using assms(2,3)
proof (induction n arbitrary: p st tr0)
  case 0
  then show ?case by (auto split: if_splits)
next
  case (Suc n)
  show ?case
  proof (cases "HasMorePages p")
    case False
    then show ?thesis using Suc.prems by auto
  next
    case True
    obtain r p' where np: "NextPage api p = (r, p')" by (cases "NextPage api p")
    show ?thesis
    proof (cases r)
      case (Inl e)
      then show ?thesis using Suc.prems True np by auto
    next
      case (Inr pg)
      obtain continue st1 where cb: "callback st (fetchBatch (Items pg)) (HasMorePages p') = (continue, st1)"
        by (cases "callback st (fetchBatch (Items pg)) (HasMorePages p')")
      have I1: "I st1" using step [OF Suc.prems(1), of "fetchBatch (Items pg)" "HasMorePages p'"] cb by simp
      show ?thesis
        using Suc.prems True np Inr cb I1 Suc.IH
        by (auto simp: Let_def split: if_splits)
    qed
  qed
qed

lemma functions_loop_keeps:
  assumes step: "\<And>s batch hasMore. I s \<Longrightarrow> I (snd (callback s batch hasMore))"
    and "I st"
    and "ListFunctionsPagedCallback_loop n api callback p st tr0 = (out, st', tr)"
  shows "I st'"
  using assms(2,3)
proof (induction n arbitrary: p st tr0)
  case 0
  then show ?case by (auto split: if_splits)
next
  case (Suc n)
  show ?case
  proof (cases "HasMorePages p")
    case False
    then show ?thesis using Suc.prems by auto
  next
    case True
    obtain r p' where np: "NextPage api p = (r, p')" by (cases "NextPage api p")
    show ?thesis
    proof (cases r)
      case (Inl e)
      then show ?thesis using Suc.prems True np by auto
    next
      case (Inr pg)
      let ?fs = "map convertFunction (Items pg)"
      obtain continue st1 where cb: "callback st ?fs (HasMorePages p') = (continue, st1)"
        by (cases "callback st ?fs (HasMorePages p')")
      have I1: "I st1" using step [OF Suc.prems(1), of ?fs "HasMorePages p'"] cb by simp
      show ?thesis
        using Suc.prems True np Inr cb I1 Suc.IH
        by (auto simp: Let_def split: if_splits)
    qed
  qed
qed

lemma tables_fold_keeps:
  "closureInOrder st \<Longrightarrow>
   closureInOrder (foldl (\<lambda>st (tables, hasMore). snd (lazyLoadCallback st tables hasMore)) st invocations)"
proof (induction invocations arbitrary: st)
  case Nil
  then show ?case by simp
next
  case (Cons inv invocations)
  obtain tables hasMore where inv: "inv = (tables, hasMore)" by (cases inv)
  have "closureInOrder (snd (lazyLoadCallback st tables hasMore))"
    using Cons.prems by (rule closureInOrder_callback)
  from Cons.IH [OF this] show ?case by (simp add: inv)
qed

lemma batchMessages_in_order:
  assumes "closureInOrder (isFirst, chan)"
  shows "batchMessages chan = chan" "batchMessages (chan @ [errorMsg e]) = chan"
proof -
  have "\<forall>m \<in> set chan. msg_err m = None"
    using assms by (auto simp: closureInOrder_def in_set_conv_nth)
  then show "batchMessages chan = chan" by (simp add: batchMessages_def)
  then show "batchMessages (chan @ [errorMsg e]) = chan"
    by (simp add: batchMessages_def errorMsg_def)
qed

lemma delivered_flags:
  assumes "closureInOrder (isFirst, chan)"
    and "msgs = chan \<or> (\<exists>e. msgs = chan @ [errorMsg e])"
    and "i < length (batchMessages msgs)"
  shows "msg_isAppend (batchMessages msgs ! i) = (i \<noteq> 0)"
proof -
  have "batchMessages msgs = chan"
    using assms(2) batchMessages_in_order [OF assms(1)] by auto
  then show ?thesis using assms(1,3) by (simp add: closureInOrder_def)
qed

lemma loadQueues_flags:
  assumes "i < length (batchMessages (loadQueues_lazy n fetchBatch api))"
  shows "msg_isAppend (batchMessages (loadQueues_lazy n fetchBatch api) ! i) = (i \<noteq> 0)"
proof -
  obtain out isFirst chan tr where run:
    "ListQueuesPagedCallback n fetchBatch api lazyLoadCallback (True, []) = (out, (isFirst, chan), tr)"
    by (metis prod.exhaust)
  have ord: "closureInOrder (isFirst, chan)"
    using queues_loop_keeps [of closureInOrder lazyLoadCallback "(True, [])" n fetchBatch api
        NewPaginator "[]" out "(isFirst, chan)" tr] run
    by (simp add: ListQueuesPagedCallback_def closureInOrder_callback closureInOrder_init)
  have "loadQueues_lazy n fetchBatch api = chan \<or>
      (\<exists>e. loadQueues_lazy n fetchBatch api = chan @ [errorMsg e])"
    using run by (auto simp: loadQueues_lazy_def split: outcome.splits option.splits)
  from delivered_flags [OF ord this assms] show ?thesis .
qed

lemma loadFunctions_flags:
  assumes "i < length (batchMessages (loadFunctions_lazy n api))"
  shows "msg_isAppend (batchMessages (loadFunctions_lazy n api) ! i) = (i \<noteq> 0)"
proof -
  obtain out isFirst chan tr where run:
    "ListFunctionsPagedCallback n api lazyLoadCallback (True, []) = (out, (isFirst, chan), tr)"
    by (metis prod.exhaust)
  have ord: "closureInOrder (isFirst, chan)"
    using functions_loop_keeps [of closureInOrder lazyLoadCallback "(True, [])" n api
        NewPaginator "[]" out "(isFirst, chan)" tr] run
    by (simp add: ListFunctionsPagedCallback_def closureInOrder_callback closureInOrder_init)
  have "loadFunctions_lazy n api = chan \<or> (\<exists>e. loadFunctions_lazy n api = chan @ [errorMsg e])"
    using run by (auto simp: loadFunctions_lazy_def split: outcome.splits option.splits)
  from delivered_flags [OF ord this assms] show ?thesis .
qed

lemma loadTables_flags:
  assumes "i < length (batchMessages (loadTables_lazy invocations listErr))"
  shows "msg_isAppend (batchMessages (loadTables_lazy invocations listErr) ! i) = (i \<noteq> 0)"
proof -
  obtain isFirst chan where run:
    "foldl (\<lambda>st (tables, hasMore). snd (lazyLoadCallback st tables hasMore)) (True, []) invocations
       = (isFirst, chan)"
    by (metis prod.exhaust)
  have ord: "closureInOrder (isFirst, chan)"
    using tables_fold_keeps [OF closureInOrder_init, of invocations] run by simp
  have "loadTables_lazy invocations listErr = chan \<or>
      (\<exists>e. loadTables_lazy invocations listErr = chan @ [errorMsg e])"
    using run by (auto simp: loadTables_lazy_def split: option.splits)
  from delivered_flags [OF ord this assms] show ?thesis .
qed

text \<open>
  Claim C5. For each of the paginated loads (queues, functions, tables), among the batch
  messages delivered the first carries \<open>isAppend = false\<close> and every later one carries
  \<open>isAppend = true\<close>. For queues and functions this holds after any number of pages of
  the listing; for tables it holds for any sequence of invocations of the closure.
\<close>

theorem first_delivery_replaces_later_append:
  "(\<forall>i < length (batchMessages (loadQueues_lazy n fetchBatch api)).
      msg_isAppend (batchMessages (loadQueues_lazy n fetchBatch api) ! i) = (i \<noteq> 0)) \<and>
   (\<forall>i < length (batchMessages (loadFunctions_lazy n' api')).
      msg_isAppend (batchMessages (loadFunctions_lazy n' api') ! i) = (i \<noteq> 0)) \<and>
   (\<forall>i < length (batchMessages (loadTables_lazy invocations listErr)).
      msg_isAppend (batchMessages (loadTables_lazy invocations listErr) ! i) = (i \<noteq> 0))"
  by (simp add: loadQueues_flags loadFunctions_flags loadTables_flags)


lemma loadQueues_example:
  "map msg_isAppend (loadQueues_lazy 5 plainFetch threeQueuePages) = [False, True, True] \<and>
   map msg_err (loadQueues_lazy 5 plainFetch threeQueuePages) = [None, None, None]"
  by code_simp

lemma loadFunctions_example:
  "map msg_isAppend (loadFunctions_lazy 5 threeFunctionPages) = [False, True, True]"
  by code_simp

theorem first_delivery_replaces_later_append_witness:
  "length (batchMessages (loadQueues_lazy 5 plainFetch threeQueuePages)) = 3 \<and>
   \<not> msg_isAppend (batchMessages (loadQueues_lazy 5 plainFetch threeQueuePages) ! 0) \<and>
   msg_isAppend (batchMessages (loadQueues_lazy 5 plainFetch threeQueuePages) ! 1) \<and>
   msg_isAppend (batchMessages (loadQueues_lazy 5 plainFetch threeQueuePages) ! 2)"
proof -
  have len: "length (batchMessages (loadQueues_lazy 5 plainFetch threeQueuePages)) = 3"
    by code_simp
  from first_delivery_replaces_later_append [of 5 plainFetch threeQueuePages 0 threeFunctionPages
      "[]" None]
  have "\<forall>i < 3. msg_isAppend (batchMessages (loadQueues_lazy 5 plainFetch threeQueuePages) ! i) =
      (i \<noteq> 0)"
    unfolding len by (rule conjunct1)
  then show ?thesis using len by simp
qed


end
